theory Spec2Isabelle
  imports Main
begin

section \<open>Data model of the diff engine\<close>

text \<open>
  The engine (class \<open>DiffEngine\<close>) turns two texts into a sequence of line pairs.
  The string tags \<open>'unchanged'\<close>, \<open>'added'\<close>, \<open>'removed'\<close>, \<open>'modified'\<close> are a datatype;
  \<open>null\<close> sides are \<open>None\<close>; a field that the source leaves undefined (\<open>charDiff\<close>,
  \<open>merged\<close>) is \<open>None\<close> resp. \<open>False\<close>.  Characters stand for the code units of a
  JavaScript string; only line feed and carriage return are ever inspected.
\<close>

datatype kind = Unchanged | Added | Removed | Modified

record charspan =
  span_text :: string
  span_type :: kind

record line =
  lineNum :: nat
  content :: string
  type :: kind
  charDiff :: "charspan list option"

record pair =
  left :: "line option"
  right :: "line option"
  merged :: bool

record diffresult =
  res_left :: "line list"
  res_right :: "line list"
  pairs :: "pair list"

record block =
  startIndex :: nat
  endIndex :: nat
  block_pairs :: "pair list"

record stats =
  s_added :: nat
  s_removed :: nat
  s_modified :: nat
  s_unchanged :: nat
  s_totalDiffs :: nat
  s_leftLines :: nat
  s_rightLines :: nat

text \<open>
  In the source the arrays \<open>left\<close> and \<open>right\<close> of a result hold the very line objects
  that its pairs hold.  The model stores values: \<open>res_left\<close> and \<open>res_right\<close> are the
  lines in the order and the state of their creation, and what \<open>detectModifications\<close>
  later writes to the \<open>type\<close> and \<open>charDiff\<close> of a line is recorded on the pairs.
  \<open>lineNum\<close> and \<open>content\<close> are never written after a line is created; nothing below
  reads the \<open>type\<close> or the \<open>charDiff\<close> of a line from \<open>res_left\<close> or \<open>res_right\<close>.
\<close>

text \<open>
  The jsdiff library (\<open>Diff.diffLines\<close>, \<open>Diff.diffChars\<close>) is not part of the
  repository.  Its change objects are the record \<open>part\<close>; the two library functions are
  parameters of the model.
\<close>

record part =
  part_value :: string
  part_added :: bool
  part_removed :: bool

record difflib =
  diffLines :: "string \<Rightarrow> string \<Rightarrow> part list"
  diffChars :: "string \<Rightarrow> string \<Rightarrow> part list"

record chardiff =
  cd_left :: "charspan list"
  cd_right :: "charspan list"

text \<open>
  The instance fields.  The constructor stores the empty array in \<open>diffResult\<close>, which has
  no \<open>pairs\<close>: that placeholder is \<open>None\<close>.  \<open>enableCharDiff\<close> is the field that
  \<open>processDiff\<close> stashes on the instance.
\<close>

record engine =
  leftLines :: "string list"
  rightLines :: "string list"
  diffResult :: "diffresult option"
  diffBlocks :: "block list"
  maxLinesForCharDiff :: nat
  enableCharDiff :: bool

definition constructor :: engine where
  "constructor =
     \<lparr>leftLines = [], rightLines = [], diffResult = None, diffBlocks = [],
      maxLinesForCharDiff = 5000, enableCharDiff = False\<rparr>"

section \<open>Splitting text into lines\<close>

definition LF :: char where
  "LF = CHR 0x0A"

definition CR :: char where
  "CR = CHR 0x0D"

text \<open>
  \<open>s.split(/\r?\n/)\<close>: scan from the left; at each position the pattern matches a
  carriage return followed by a line feed, or a line feed alone.  \<open>cur\<close> is the piece
  collected since the last match.  The result always has at least one element.
\<close>

fun split_from :: "string \<Rightarrow> string \<Rightarrow> string list" where
  "split_from cur [] = [cur]"
| "split_from cur [c] = (if c = LF then [cur, []] else [cur @ [c]])"
| "split_from cur (c # d # cs) =
     (if c = LF then cur # split_from [] (d # cs)
      else if c = CR \<and> d = LF then cur # split_from [] cs
      else split_from (cur @ [c]) (d # cs))"

definition split_newline :: "string \<Rightarrow> string list" where
  "split_newline s = split_from [] s"

text \<open>\<open>splitLines\<close>: a falsy argument (absent, or the empty string) gives no lines.\<close>

definition splitLines :: "string option \<Rightarrow> string list" where
  "splitLines text =
     (case text of
        None \<Rightarrow> []
      | Some s \<Rightarrow> if s = [] then [] else split_newline s)"

section \<open>Pairing: \<open>processDiff\<close>\<close>

text \<open>
  The lines of one change object: split its value and pop the last element when it is
  the empty string.
\<close>

definition part_lines :: "string \<Rightarrow> string list" where
  "part_lines v =
     (let lines = split_newline v
      in if last lines = [] then butlast lines else lines)"

record pairing =
  leftLineNum :: nat
  rightLineNum :: nat
  result :: diffresult

text \<open>The body of the inner \<open>forEach\<close>: one line of a change object.\<close>

definition emit_line :: "part \<Rightarrow> pairing \<Rightarrow> string \<Rightarrow> pairing" where
  "emit_line p st ln =
     (let r = result st in
      if part_added p then
        let rl = \<lparr>lineNum = rightLineNum st, content = ln, type = Added, charDiff = None\<rparr>
        in st\<lparr>rightLineNum := rightLineNum st + 1,
               result := r\<lparr>res_right := res_right r @ [rl],
                            pairs := pairs r @ [\<lparr>left = None, right = Some rl, merged = False\<rparr>]\<rparr>\<rparr>
      else if part_removed p then
        let ll = \<lparr>lineNum = leftLineNum st, content = ln, type = Removed, charDiff = None\<rparr>
        in st\<lparr>leftLineNum := leftLineNum st + 1,
               result := r\<lparr>res_left := res_left r @ [ll],
                            pairs := pairs r @ [\<lparr>left = Some ll, right = None, merged = False\<rparr>]\<rparr>\<rparr>
      else
        let ll = \<lparr>lineNum = leftLineNum st, content = ln, type = Unchanged, charDiff = None\<rparr>;
            rl = \<lparr>lineNum = rightLineNum st, content = ln, type = Unchanged, charDiff = None\<rparr>
        in st\<lparr>leftLineNum := leftLineNum st + 1,
               rightLineNum := rightLineNum st + 1,
               result := r\<lparr>res_left := res_left r @ [ll],
                            res_right := res_right r @ [rl],
                            pairs := pairs r @ [\<lparr>left = Some ll, right = Some rl, merged = False\<rparr>]\<rparr>\<rparr>)"

definition emit_part :: "pairing \<Rightarrow> part \<Rightarrow> pairing" where
  "emit_part st p = foldl (emit_line p) st (part_lines (part_value p))"

definition pairing_init :: pairing where
  "pairing_init =
     \<lparr>leftLineNum = 1, rightLineNum = 1,
      result = \<lparr>res_left = [], res_right = [], pairs = []\<rparr>\<rparr>"

definition pair_lines :: "part list \<Rightarrow> diffresult" where
  "pair_lines diff = result (foldl emit_part pairing_init diff)"

section \<open>Character-level diff: \<open>computeCharDiff\<close>\<close>

definition char_part :: "chardiff \<Rightarrow> part \<Rightarrow> chardiff" where
  "char_part cd p =
     (if part_added p then
        cd\<lparr>cd_right := cd_right cd @ [\<lparr>span_text = part_value p, span_type = Added\<rparr>]\<rparr>
      else if part_removed p then
        cd\<lparr>cd_left := cd_left cd @ [\<lparr>span_text = part_value p, span_type = Removed\<rparr>]\<rparr>
      else
        cd\<lparr>cd_left := cd_left cd @ [\<lparr>span_text = part_value p, span_type = Unchanged\<rparr>],
           cd_right := cd_right cd @ [\<lparr>span_text = part_value p, span_type = Unchanged\<rparr>]\<rparr>)"

definition computeCharDiff :: "difflib \<Rightarrow> string \<Rightarrow> string \<Rightarrow> chardiff" where
  "computeCharDiff D leftLine rightLine =
     foldl char_part \<lparr>cd_left = [], cd_right = []\<rparr> (diffChars D leftLine rightLine)"

section \<open>Modification detection: \<open>detectModifications\<close>\<close>

text \<open>
  The pass works on the array \<open>pairs\<close> by index.  Reading a property of \<open>null\<close> or of an
  element beyond the end of the array throws a \<open>TypeError\<close> in the source; the model
  returns \<open>None\<close> there.  The conditions of the loops test \<open>i < pairs.length\<close> first, so
  only the merge step can fault.
\<close>

definition left_only :: "pair \<Rightarrow> bool" where
  "left_only p = (left p \<noteq> None \<and> right p = None)"

definition right_only :: "pair \<Rightarrow> bool" where
  "right_only p = (left p = None \<and> right p \<noteq> None)"

definition removed_start :: "pair \<Rightarrow> bool" where
  "removed_start p =
     (case left p of
        None \<Rightarrow> False
      | Some l \<Rightarrow> right p = None \<and> type l = Removed)"

definition added_start :: "pair \<Rightarrow> bool" where
  "added_start p =
     (left p = None \<and> (case right p of None \<Rightarrow> False | Some r \<Rightarrow> type r = Added))"

text \<open>The two inner \<open>while\<close> loops: advance \<open>i\<close> over a run.\<close>

function scan_left_only :: "pair list \<Rightarrow> nat \<Rightarrow> nat" where
  "scan_left_only ps i =
     (if i < length ps \<and> left_only (ps ! i) then scan_left_only ps (i + 1) else i)"
  by pat_completeness auto
termination
  by (relation "measure (\<lambda>(ps, i). length ps - i)") auto

declare scan_left_only.simps [simp del]

function scan_right_only :: "pair list \<Rightarrow> nat \<Rightarrow> nat" where
  "scan_right_only ps i =
     (if i < length ps \<and> right_only (ps ! i) then scan_right_only ps (i + 1) else i)"
  by pat_completeness auto
termination
  by (relation "measure (\<lambda>(ps, i). length ps - i)") auto

declare scan_right_only.simps [simp del]

text \<open>
  One round of the \<open>for\<close> loop.  The line objects are shared between the two pairs, so
  the writes to \<open>type\<close> and \<open>charDiff\<close> show in both; the added pair keeps its right
  side and is flagged \<open>merged\<close>.
\<close>

definition merge_at ::
  "difflib \<Rightarrow> bool \<Rightarrow> nat \<Rightarrow> nat \<Rightarrow> pair list \<Rightarrow> nat \<Rightarrow> pair list option" where
  "merge_at D enable removedStart addedStart ps j =
     (let removedIdx = removedStart + j;
          addedIdx = addedStart + j
      in if removedIdx < length ps \<and> addedIdx < length ps then
           (case (left (ps ! removedIdx), right (ps ! addedIdx)) of
              (Some l, Some r) \<Rightarrow>
                let l1 = l\<lparr>type := Modified\<rparr>;
                    r1 = r\<lparr>type := Modified\<rparr>;
                    cd = computeCharDiff D (content l1)
                           (if type r1 = Modified then content r1 else []);
                    l2 = (if enable then l1\<lparr>charDiff := Some (cd_left cd)\<rparr> else l1);
                    r2 = (if enable then r1\<lparr>charDiff := Some (cd_right cd)\<rparr> else r1);
                    ps1 = ps[removedIdx := (ps ! removedIdx)\<lparr>left := Some l2\<rparr>];
                    ps2 = ps1[addedIdx := (ps1 ! addedIdx)\<lparr>right := Some r2\<rparr>];
                    ps3 = ps2[removedIdx := (ps2 ! removedIdx)\<lparr>right := right (ps2 ! addedIdx)\<rparr>];
                    ps4 = ps3[addedIdx := (ps3 ! addedIdx)\<lparr>merged := True\<rparr>]
                in Some ps4
            | _ \<Rightarrow> None)
         else None)"

function merge_loop ::
  "difflib \<Rightarrow> bool \<Rightarrow> nat \<Rightarrow> nat \<Rightarrow> nat \<Rightarrow> pair list \<Rightarrow> nat \<Rightarrow> pair list option" where
  "merge_loop D enable removedStart addedStart minCount ps j =
     (if j < minCount then
        (case merge_at D enable removedStart addedStart ps j of
           None \<Rightarrow> None
         | Some ps' \<Rightarrow> merge_loop D enable removedStart addedStart minCount ps' (j + 1))
      else Some ps)"
  by pat_completeness auto
termination
  by (relation "measure (\<lambda>(D, enable, rs, as, m, ps, j). m - j)") auto

declare merge_loop.simps [simp del]

text \<open>
  One round of the outer \<open>while\<close> loop, entered with \<open>i < pairs.length\<close>.  The sentinel
  \<open>-1\<close> of \<open>removedStart\<close> is the outer \<open>else\<close> branch.  In the first branch the removed
  scan has advanced at least once, so \<open>i1 - 1\<close> is the index \<open>removedEnd\<close>, and likewise
  for \<open>addedEnd\<close>.
\<close>

definition detect_step ::
  "difflib \<Rightarrow> bool \<Rightarrow> pair list \<times> nat \<Rightarrow> (pair list \<times> nat) option" where
  "detect_step D enable s =
     (let ps = fst s; i = snd s in
      if removed_start (ps ! i) then
        let removedStart = i;
            i1 = scan_left_only ps i;
            removedEnd = i1 - 1
        in if i1 < length ps \<and> added_start (ps ! i1) then
             let addedStart = i1;
                 i2 = scan_right_only ps i1;
                 addedEnd = i2 - 1;
                 removedCount = removedEnd - removedStart + 1;
                 addedCount = addedEnd - addedStart + 1;
                 minCount = min removedCount addedCount
             in (case merge_loop D enable removedStart addedStart minCount ps 0 of
                   None \<Rightarrow> None
                 | Some ps' \<Rightarrow> Some (ps', i2))
           else Some (ps, i1)
      else Some (ps, i + 1))"

lemma scan_left_only_ge: "i \<le> scan_left_only ps i"
proof (induction ps i rule: scan_left_only.induct)
  case (1 ps i)
  show ?case
  proof (cases "i < length ps \<and> left_only (ps ! i)")
    case True
    with 1 have "i + 1 \<le> scan_left_only ps (i + 1)" by simp
    with True show ?thesis by (subst scan_left_only.simps) simp
  next
    case False
    then show ?thesis by (subst scan_left_only.simps) auto
  qed
qed

lemma scan_left_only_le: "i \<le> length ps \<Longrightarrow> scan_left_only ps i \<le> length ps"
proof (induction ps i rule: scan_left_only.induct)
  case (1 ps i)
  show ?case
  proof (cases "i < length ps \<and> left_only (ps ! i)")
    case True
    with 1 have "scan_left_only ps (i + 1) \<le> length ps" by simp
    with True show ?thesis by (subst scan_left_only.simps) simp
  next
    case False
    with 1 show ?thesis by (subst scan_left_only.simps) auto
  qed
qed

lemma scan_left_only_gt:
  "i < length ps \<Longrightarrow> left_only (ps ! i) \<Longrightarrow> i < scan_left_only ps i"
  using scan_left_only_ge [of "i + 1" ps] by (subst scan_left_only.simps) simp

lemma scan_right_only_ge: "i \<le> scan_right_only ps i"
proof (induction ps i rule: scan_right_only.induct)
  case (1 ps i)
  show ?case
  proof (cases "i < length ps \<and> right_only (ps ! i)")
    case True
    with 1 have "i + 1 \<le> scan_right_only ps (i + 1)" by simp
    with True show ?thesis by (subst scan_right_only.simps) simp
  next
    case False
    then show ?thesis by (subst scan_right_only.simps) auto
  qed
qed

lemma scan_right_only_le: "i \<le> length ps \<Longrightarrow> scan_right_only ps i \<le> length ps"
proof (induction ps i rule: scan_right_only.induct)
  case (1 ps i)
  show ?case
  proof (cases "i < length ps \<and> right_only (ps ! i)")
    case True
    with 1 have "scan_right_only ps (i + 1) \<le> length ps" by simp
    with True show ?thesis by (subst scan_right_only.simps) simp
  next
    case False
    with 1 show ?thesis by (subst scan_right_only.simps) auto
  qed
qed

lemma scan_right_only_gt:
  "i < length ps \<Longrightarrow> right_only (ps ! i) \<Longrightarrow> i < scan_right_only ps i"
  using scan_right_only_ge [of "i + 1" ps] by (subst scan_right_only.simps) simp

lemma removed_start_left_only: "removed_start p \<Longrightarrow> left_only p"
  by (auto simp: removed_start_def left_only_def split: option.splits)

lemma added_start_right_only: "added_start p \<Longrightarrow> right_only p"
  by (auto simp: added_start_def right_only_def split: option.splits)

lemma length_merge_at:
  "merge_at D en rs as ps j = Some ps' \<Longrightarrow> length ps' = length ps"
  by (auto simp: merge_at_def Let_def split: if_splits option.splits)

lemma length_merge_loop:
  "merge_loop D en rs as m ps j = Some ps' \<Longrightarrow> length ps' = length ps"
proof (induction D en rs as m ps j rule: merge_loop.induct)
  case (1 D en rs as m ps j)
  show ?case
  proof (cases "j < m")
    case True
    with "1.prems" obtain ps1 where
      a: "merge_at D en rs as ps j = Some ps1" and
      b: "merge_loop D en rs as m ps1 (j + 1) = Some ps'"
      by (subst (asm) merge_loop.simps) (auto split: option.splits)
    from "1.IH" [OF True a b] length_merge_at [OF a] show ?thesis by simp
  next
    case False
    with "1.prems" show ?thesis by (subst (asm) merge_loop.simps) simp
  qed
qed

lemma detect_step_progress:
  assumes "snd s < length (fst s)" and "detect_step D en s = Some s'"
  shows "length (fst s') = length (fst s) \<and> snd s < snd s' \<and> snd s' \<le> length (fst s)"
proof (cases "removed_start (fst s ! snd s)")
  case False
  with assms show ?thesis by (auto simp: detect_step_def Let_def)
next
  case True
  let ?ps = "fst s" and ?i = "snd s"
  let ?i1 = "scan_left_only ?ps ?i"
  have i1: "?i < ?i1" "?i1 \<le> length ?ps"
    using assms(1) True scan_left_only_gt [of ?i ?ps] scan_left_only_le [of ?i ?ps]
    by (auto dest: removed_start_left_only)
  show ?thesis
  proof (cases "?i1 < length ?ps \<and> added_start (?ps ! ?i1)")
    case False
    with True assms(2) have "s' = (?ps, ?i1)"
      by (auto simp: detect_step_def Let_def)
    with i1 show ?thesis by simp
  next
    case A: True
    let ?i2 = "scan_right_only ?ps ?i1"
    have i2: "?i1 < ?i2" "?i2 \<le> length ?ps"
      using A scan_right_only_gt [of ?i1 ?ps] scan_right_only_le [of ?i1 ?ps]
      by (auto dest: added_start_right_only)
    from True A assms(2) obtain ps' where
      m: "merge_loop D en ?i ?i1 (min (?i1 - 1 - ?i + 1) (?i2 - 1 - ?i1 + 1)) ?ps 0 = Some ps'"
      and s': "s' = (ps', ?i2)"
      by (auto simp: detect_step_def Let_def split: option.splits)
    from length_merge_loop [OF m] s' i1 i2 show ?thesis by simp
  qed
qed

text \<open>
  The outer \<open>while\<close> loop.  Every round moves the index forward, which is what makes
  the recursion well-founded.
\<close>

function detect_loop :: "difflib \<Rightarrow> bool \<Rightarrow> pair list \<times> nat \<Rightarrow> pair list option" where
  "detect_loop D enable s =
     (if snd s < length (fst s) then
        (case detect_step D enable s of
           None \<Rightarrow> None
         | Some s' \<Rightarrow> detect_loop D enable s')
      else Some (fst s))"
  by pat_completeness auto
termination
proof (relation "measure (\<lambda>(D, enable, s). length (fst s) - snd s)")
  show "wf (measure (\<lambda>(D, enable, s). length (fst s) - snd s))" by simp
next
  fix D enable s s'
  assume "snd s < length (fst s)" "detect_step D enable s = Some s'"
  from detect_step_progress [OF this]
  show "((D, enable, s'), (D, enable, s)) \<in> measure (\<lambda>(D, enable, s). length (fst s) - snd s)"
    by auto
qed

declare detect_loop.simps [simp del]

text \<open>
  \<open>detectModifications\<close>: run the loop from index 0, then drop the pairs flagged
  \<open>merged\<close>.
\<close>

definition detectModifications :: "difflib \<Rightarrow> engine \<Rightarrow> diffresult \<Rightarrow> diffresult option" where
  "detectModifications D this r =
     (case detect_loop D (enableCharDiff this) (pairs r, 0) of
        None \<Rightarrow> None
      | Some ps \<Rightarrow> Some (r\<lparr>pairs := filter (\<lambda>p. \<not> merged p) ps\<rparr>))"

definition processDiff ::
  "difflib \<Rightarrow> engine \<Rightarrow> part list \<Rightarrow> bool \<Rightarrow> (engine \<times> diffresult) option" where
  "processDiff D this diff enable =
     (let this1 = this\<lparr>enableCharDiff := enable\<rparr>
      in case detectModifications D this1 (pair_lines diff) of
           None \<Rightarrow> None
         | Some r \<Rightarrow> Some (this1, r))"

section \<open>Grouping into blocks: \<open>groupDiffBlocks\<close>\<close>

definition isDiff :: "pair \<Rightarrow> bool" where
  "isDiff p =
     ((case left p of None \<Rightarrow> False | Some l \<Rightarrow> type l \<noteq> Unchanged) \<or>
      (case right p of None \<Rightarrow> False | Some r \<Rightarrow> type r \<noteq> Unchanged))"

record grouping =
  blocks :: "block list"
  currentBlock :: "block option"

text \<open>The body of the \<open>forEach\<close> over the pairs with their indices.\<close>

definition group_step :: "grouping \<Rightarrow> nat \<times> pair \<Rightarrow> grouping" where
  "group_step g ip =
     (let index = fst ip; p = snd ip in
      if isDiff p then
        let cb = (case currentBlock g of
                    None \<Rightarrow> \<lparr>startIndex = index, endIndex = index, block_pairs = []\<rparr>
                  | Some b \<Rightarrow> b)
        in g\<lparr>currentBlock := Some (cb\<lparr>endIndex := index, block_pairs := block_pairs cb @ [p]\<rparr>)\<rparr>
      else
        (case currentBlock g of
           None \<Rightarrow> g
         | Some b \<Rightarrow> g\<lparr>blocks := blocks g @ [b], currentBlock := None\<rparr>))"

definition groupDiffBlocks :: "diffresult \<Rightarrow> block list" where
  "groupDiffBlocks r =
     (let g = foldl group_step \<lparr>blocks = [], currentBlock = None\<rparr> (enumerate 0 (pairs r))
      in case currentBlock g of
           None \<Rightarrow> blocks g
         | Some b \<Rightarrow> blocks g @ [b])"

section \<open>The entry point \<open>compare\<close> and the queries\<close>

text \<open>
  The value returned by \<open>compare\<close> is the \<open>diffResult\<close> field of the engine it leaves
  behind; the model returns that engine, or \<open>None\<close> when the call throws.
\<close>

definition compare :: "difflib \<Rightarrow> engine \<Rightarrow> string \<Rightarrow> string \<Rightarrow> engine option" where
  "compare D this leftText rightText =
     (let this1 = this\<lparr>leftLines := splitLines (Some leftText)\<rparr>;
          this2 = this1\<lparr>rightLines := splitLines (Some rightText)\<rparr>;
          totalLines = length (leftLines this2) + length (rightLines this2);
          diff = diffLines D leftText rightText
      in case processDiff D this2 diff (totalLines < maxLinesForCharDiff this2) of
           None \<Rightarrow> None
         | Some (this3, r) \<Rightarrow>
             Some (this3\<lparr>diffResult := Some r, diffBlocks := groupDiffBlocks r\<rparr>))"

record counters =
  c_added :: nat
  c_removed :: nat
  c_modified :: nat
  c_unchanged :: nat

definition count_pair :: "counters \<Rightarrow> pair \<Rightarrow> counters" where
  "count_pair c p =
     (case (left p, right p) of
        (Some l, Some r) \<Rightarrow>
          if type l = Modified then c\<lparr>c_modified := c_modified c + 1\<rparr>
          else c\<lparr>c_unchanged := c_unchanged c + 1\<rparr>
      | (Some l, None) \<Rightarrow> c\<lparr>c_removed := c_removed c + 1\<rparr>
      | (None, Some r) \<Rightarrow> c\<lparr>c_added := c_added c + 1\<rparr>
      | (None, None) \<Rightarrow> c)"

text \<open>
  \<open>getStats\<close> reads \<open>this.diffResult.pairs\<close>; on the constructor's placeholder that
  is \<open>undefined\<close> and the call throws.
\<close>

definition getStats :: "engine \<Rightarrow> stats option" where
  "getStats this =
     (case diffResult this of
        None \<Rightarrow> None
      | Some r \<Rightarrow>
          let c = foldl count_pair
                    \<lparr>c_added = 0, c_removed = 0, c_modified = 0, c_unchanged = 0\<rparr> (pairs r)
          in Some \<lparr>s_added = c_added c, s_removed = c_removed c, s_modified = c_modified c,
                   s_unchanged = c_unchanged c, s_totalDiffs = length (diffBlocks this),
                   s_leftLines = length (leftLines this),
                   s_rightLines = length (rightLines this)\<rparr>)"

definition getDiffBlocks :: "engine \<Rightarrow> block list" where
  "getDiffBlocks this = diffBlocks this"

definition getResult :: "engine \<Rightarrow> diffresult option" where
  "getResult this = diffResult this"

section \<open>The modification pass on lists\<close>

text \<open>
  What one merge writes: the removed line and the added line both become \<open>Modified\<close>,
  and carry the character spans of \<open>computeCharDiff\<close> when character diffing is enabled.
\<close>

definition mod_left :: "difflib \<Rightarrow> bool \<Rightarrow> line \<Rightarrow> line \<Rightarrow> line" where
  "mod_left D en l r =
     (if en then l\<lparr>type := Modified, charDiff := Some (cd_left (computeCharDiff D (content l) (content r)))\<rparr>
      else l\<lparr>type := Modified\<rparr>)"

definition mod_right :: "difflib \<Rightarrow> bool \<Rightarrow> line \<Rightarrow> line \<Rightarrow> line" where
  "mod_right D en l r =
     (if en then r\<lparr>type := Modified, charDiff := Some (cd_right (computeCharDiff D (content l) (content r)))\<rparr>
      else r\<lparr>type := Modified\<rparr>)"

definition merge_left :: "difflib \<Rightarrow> bool \<Rightarrow> pair \<Rightarrow> pair \<Rightarrow> pair" where
  "merge_left D en p q =
     (case (left p, right q) of
        (Some l, Some r) \<Rightarrow> p\<lparr>left := Some (mod_left D en l r), right := Some (mod_right D en l r)\<rparr>
      | _ \<Rightarrow> p)"

definition merge_right :: "difflib \<Rightarrow> bool \<Rightarrow> pair \<Rightarrow> pair \<Rightarrow> pair" where
  "merge_right D en p q =
     (case (left p, right q) of
        (Some l, Some r) \<Rightarrow> q\<lparr>right := Some (mod_right D en l r), merged := True\<rparr>
      | _ \<Rightarrow> q)"

lemma scan_left_only_eq:
  "i \<le> length ps \<Longrightarrow> scan_left_only ps i = i + length (takeWhile left_only (drop i ps))"
proof (induction ps i rule: scan_left_only.induct)
  case (1 ps i)
  show ?case
  proof (cases "i < length ps \<and> left_only (ps ! i)")
    case True
    then have d: "drop i ps = ps ! i # drop (i + 1) ps"
      by (simp add: Cons_nth_drop_Suc)
    from True 1 have "scan_left_only ps (i + 1) = i + 1 + length (takeWhile left_only (drop (i + 1) ps))"
      by simp
    with True d show ?thesis by (subst scan_left_only.simps) simp
  next
    case False
    show ?thesis
    proof (cases "i < length ps")
      case True
      then have d: "drop i ps = ps ! i # drop (i + 1) ps"
        by (simp add: Cons_nth_drop_Suc)
      with False True show ?thesis by (subst scan_left_only.simps) simp
    next
      case F: False
      then show ?thesis by (subst scan_left_only.simps) simp
    qed
  qed
qed

lemma scan_right_only_eq:
  "i \<le> length ps \<Longrightarrow> scan_right_only ps i = i + length (takeWhile right_only (drop i ps))"
proof (induction ps i rule: scan_right_only.induct)
  case (1 ps i)
  show ?case
  proof (cases "i < length ps \<and> right_only (ps ! i)")
    case True
    then have d: "drop i ps = ps ! i # drop (i + 1) ps"
      by (simp add: Cons_nth_drop_Suc)
    from True 1 have "scan_right_only ps (i + 1) = i + 1 + length (takeWhile right_only (drop (i + 1) ps))"
      by simp
    with True d show ?thesis by (subst scan_right_only.simps) simp
  next
    case False
    show ?thesis
    proof (cases "i < length ps")
      case True
      then have d: "drop i ps = ps ! i # drop (i + 1) ps"
        by (simp add: Cons_nth_drop_Suc)
      with False True show ?thesis by (subst scan_right_only.simps) simp
    next
      case F: False
      then show ?thesis by (subst scan_right_only.simps) simp
    qed
  qed
qed

lemma merge_at_eq:
  assumes "rs + j < length ps" "as + j < length ps" "rs \<noteq> as"
    and "left (ps ! (rs + j)) = Some l" "right (ps ! (as + j)) = Some r"
  shows "merge_at D en rs as ps j =
           Some (ps[rs + j := merge_left D en (ps ! (rs + j)) (ps ! (as + j)),
                    as + j := merge_right D en (ps ! (rs + j)) (ps ! (as + j))])"
  using assms
  by (simp add: merge_at_def Let_def merge_left_def merge_right_def mod_left_def mod_right_def
      list_update_swap [of "rs + j" "as + j"])

lemma merge_loop_nth:
  assumes "rs + m \<le> as" "as + m \<le> length ps"
    and "\<And>k. j \<le> k \<Longrightarrow> k < m \<Longrightarrow> left (ps ! (rs + k)) \<noteq> None \<and> right (ps ! (as + k)) \<noteq> None"
  shows "\<exists>ps'. merge_loop D en rs as m ps j = Some ps' \<and> length ps' = length ps \<and>
           (\<forall>k < length ps. ps' ! k =
              (if rs + j \<le> k \<and> k < rs + m then merge_left D en (ps ! k) (ps ! (k - rs + as))
               else if as + j \<le> k \<and> k < as + m then merge_right D en (ps ! (k - as + rs)) (ps ! k)
               else ps ! k))"
  using assms
proof (induction D en rs as m ps j rule: merge_loop.induct)
  case (1 D en rs as m ps j)
  show ?case
  proof (cases "j < m")
    case False
    then show ?thesis by (subst merge_loop.simps) auto
  next
    case True
    from "1.prems"(3) [of j] True obtain l r where
      lr: "left (ps ! (rs + j)) = Some l" "right (ps ! (as + j)) = Some r" by auto
    let ?ps1 = "ps[rs + j := merge_left D en (ps ! (rs + j)) (ps ! (as + j)),
                   as + j := merge_right D en (ps ! (rs + j)) (ps ! (as + j))]"
    have ne: "rs \<noteq> as" using True "1.prems"(1) by auto
    have at: "merge_at D en rs as ps j = Some ?ps1"
      using True "1.prems"(1,2) ne lr by (intro merge_at_eq) auto
    have pre3: "\<And>k. j + 1 \<le> k \<Longrightarrow> k < m \<Longrightarrow>
        left (?ps1 ! (rs + k)) \<noteq> None \<and> right (?ps1 ! (as + k)) \<noteq> None"
    proof -
      fix k assume k: "j + 1 \<le> k" "k < m"
      then have "?ps1 ! (rs + k) = ps ! (rs + k)" "?ps1 ! (as + k) = ps ! (as + k)"
        using "1.prems"(1,2) by (auto simp: nth_list_update)
      with "1.prems"(3) [of k] k show
        "left (?ps1 ! (rs + k)) \<noteq> None \<and> right (?ps1 ! (as + k)) \<noteq> None" by simp
    qed
    have len1: "length ?ps1 = length ps" by simp
    have "\<exists>ps'. merge_loop D en rs as m ?ps1 (j + 1) = Some ps' \<and> length ps' = length ?ps1 \<and>
           (\<forall>k < length ?ps1. ps' ! k =
              (if rs + (j + 1) \<le> k \<and> k < rs + m then merge_left D en (?ps1 ! k) (?ps1 ! (k - rs + as))
               else if as + (j + 1) \<le> k \<and> k < as + m then merge_right D en (?ps1 ! (k - as + rs)) (?ps1 ! k)
               else ?ps1 ! k))"
    proof (rule "1.IH" [OF True at "1.prems"(1)])
      show "as + m \<le> length ?ps1" using "1.prems"(2) by simp
    next
      fix k assume "j + 1 \<le> k" "k < m"
      then show "left (?ps1 ! (rs + k)) \<noteq> None \<and> right (?ps1 ! (as + k)) \<noteq> None"
        by (rule pre3)
    qed
    then obtain ps' where
      ml: "merge_loop D en rs as m ?ps1 (j + 1) = Some ps'" and
      len: "length ps' = length ps" and
      nth: "\<And>k. k < length ps \<Longrightarrow> ps' ! k =
              (if rs + (j + 1) \<le> k \<and> k < rs + m then merge_left D en (?ps1 ! k) (?ps1 ! (k - rs + as))
               else if as + (j + 1) \<le> k \<and> k < as + m then merge_right D en (?ps1 ! (k - as + rs)) (?ps1 ! k)
               else ?ps1 ! k)"
      unfolding len1 by blast
    have res: "merge_loop D en rs as m ps j = Some ps'"
      using True at ml by (subst merge_loop.simps) simp
    have other: "\<And>x. x \<noteq> rs + j \<Longrightarrow> x \<noteq> as + j \<Longrightarrow> ?ps1 ! x = ps ! x"
      by simp
    have atr: "?ps1 ! (rs + j) = merge_left D en (ps ! (rs + j)) (ps ! (as + j))"
      using ne True "1.prems"(1,2) by (simp add: nth_list_update)
    have ata: "?ps1 ! (as + j) = merge_right D en (ps ! (rs + j)) (ps ! (as + j))"
      using ne True "1.prems"(1,2) by (simp add: nth_list_update)
    have "\<forall>k < length ps. ps' ! k =
              (if rs + j \<le> k \<and> k < rs + m then merge_left D en (ps ! k) (ps ! (k - rs + as))
               else if as + j \<le> k \<and> k < as + m then merge_right D en (ps ! (k - as + rs)) (ps ! k)
               else ps ! k)"
    proof (intro allI impI)
      fix k assume k: "k < length ps"
      note e = nth [OF k]
      consider (a) "k = rs + j" | (b) "k = as + j"
        | (c) "rs + (j + 1) \<le> k" "k < rs + m" | (d) "as + (j + 1) \<le> k" "k < as + m"
        | (e) "k < rs + j \<or> (rs + m \<le> k \<and> k < as + j) \<or> as + m \<le> k"
        by linarith
      then show "ps' ! k =
              (if rs + j \<le> k \<and> k < rs + m then merge_left D en (ps ! k) (ps ! (k - rs + as))
               else if as + j \<le> k \<and> k < as + m then merge_right D en (ps ! (k - as + rs)) (ps ! k)
               else ps ! k)"
      proof cases
        case a
        have "ps' ! k = ?ps1 ! k" using e a True "1.prems"(1) by simp
        also have "\<dots> = merge_left D en (ps ! (rs + j)) (ps ! (as + j))"
          using a atr by simp
        finally show ?thesis using a True by (simp add: add.commute)
      next
        case b
        have "ps' ! k = ?ps1 ! k" using e b True "1.prems"(1) by simp
        also have "\<dots> = merge_right D en (ps ! (rs + j)) (ps ! (as + j))"
          using b ata by simp
        finally show ?thesis using b True "1.prems"(1) by (simp add: add.commute)
      next
        case c
        have "ps' ! k = merge_left D en (?ps1 ! k) (?ps1 ! (k - rs + as))"
          using e c by simp
        moreover have "?ps1 ! k = ps ! k"
          using c "1.prems"(1) by (intro other) auto
        moreover have "?ps1 ! (k - rs + as) = ps ! (k - rs + as)"
          using c "1.prems"(1) by (intro other) auto
        ultimately show ?thesis using c by simp
      next
        case d
        have "ps' ! k = merge_right D en (?ps1 ! (k - as + rs)) (?ps1 ! k)"
          using e d "1.prems"(1) by simp
        moreover have "?ps1 ! k = ps ! k"
          using d "1.prems"(1) by (intro other) auto
        moreover have "?ps1 ! (k - as + rs) = ps ! (k - as + rs)"
          using d "1.prems"(1) by (intro other) auto
        ultimately show ?thesis using d "1.prems"(1) by simp
      next
        case e
        have "ps' ! k = ?ps1 ! k"
          using nth [OF k] e "1.prems"(1) by auto
        moreover have "?ps1 ! k = ps ! k"
          using e True "1.prems"(1) by (intro other) auto
        ultimately show ?thesis using e "1.prems"(1) by auto
      qed
    qed
    with res len show ?thesis by simp
  qed
qed

lemma merge_loop_runs:
  assumes m: "m \<le> length R" "m \<le> length Ad"
    and R: "\<And>k. k < m \<Longrightarrow> left (R ! k) \<noteq> None"
    and Ad: "\<And>k. k < m \<Longrightarrow> right (Ad ! k) \<noteq> None"
  shows "merge_loop D en (length A) (length A + length R) m (A @ R @ Ad @ B) 0 =
           Some (A @ map2 (merge_left D en) (take m R) (take m Ad) @ drop m R
                   @ map2 (merge_right D en) (take m R) (take m Ad) @ drop m Ad @ B)"
proof -
  let ?ps = "A @ R @ Ad @ B"
  let ?rs = "length A" and ?as = "length A + length R"
  let ?out = "A @ map2 (merge_left D en) (take m R) (take m Ad) @ drop m R
                   @ map2 (merge_right D en) (take m R) (take m Ad) @ drop m Ad @ B"
  have inR: "\<And>k. k < length R \<Longrightarrow> ?ps ! (?rs + k) = R ! k"
    by (simp add: nth_append)
  have inAd: "\<And>k. k < length Ad \<Longrightarrow> ?ps ! (?as + k) = Ad ! k"
    by (simp add: nth_append)
  have "\<exists>ps'. merge_loop D en ?rs ?as m ?ps 0 = Some ps' \<and> length ps' = length ?ps \<and>
           (\<forall>k < length ?ps. ps' ! k =
              (if ?rs + 0 \<le> k \<and> k < ?rs + m then merge_left D en (?ps ! k) (?ps ! (k - ?rs + ?as))
               else if ?as + 0 \<le> k \<and> k < ?as + m then merge_right D en (?ps ! (k - ?as + ?rs)) (?ps ! k)
               else ?ps ! k))"
  proof (rule merge_loop_nth)
    show "?rs + m \<le> ?as" using m by simp
    show "?as + m \<le> length ?ps" using m by simp
    fix k assume "0 \<le> k" "k < m"
    then show "left (?ps ! (?rs + k)) \<noteq> None \<and> right (?ps ! (?as + k)) \<noteq> None"
      using m R [of k] Ad [of k] inR [of k] inAd [of k] by simp
  qed
  then obtain ps' where
    ml: "merge_loop D en ?rs ?as m ?ps 0 = Some ps'" and
    len: "length ps' = length ?ps" and
    nth: "\<And>k. k < length ?ps \<Longrightarrow> ps' ! k =
              (if ?rs \<le> k \<and> k < ?rs + m then merge_left D en (?ps ! k) (?ps ! (k - ?rs + ?as))
               else if ?as \<le> k \<and> k < ?as + m then merge_right D en (?ps ! (k - ?as + ?rs)) (?ps ! k)
               else ?ps ! k)"
    by auto
  have lo: "length ?out = length ?ps" using m by (simp add: min_def)
  have "ps' = ?out"
  proof (rule nth_equalityI)
    show "length ps' = length ?out" by (simp only: len lo)
  next
    fix k assume "k < length ps'"
    then have k: "k < length ?ps" using len by simp
    consider (a) "k < ?rs" | (b) "?rs \<le> k" "k < ?rs + m" | (c) "?rs + m \<le> k" "k < ?as"
      | (d) "?as \<le> k" "k < ?as + m" | (e) "?as + m \<le> k"
      by linarith
    then show "ps' ! k = ?out ! k"
    proof cases
      case a
      then show ?thesis using nth [OF k] by (simp add: nth_append)
    next
      case b
      define x where "x = k - ?rs"
      have x: "k = ?rs + x" "x < m" using b by (auto simp: x_def)
      have "ps' ! k = merge_left D en (R ! x) (Ad ! x)"
        using nth [OF k] b x m inR [of x] inAd [of x] by (simp add: add.commute add.left_commute)
      moreover have "?out ! k = merge_left D en (R ! x) (Ad ! x)"
        using x m by (simp add: nth_append)
      ultimately show ?thesis by simp
    next
      case c
      define x where "x = k - ?rs"
      have x: "k = ?rs + x" "m \<le> x" "x < length R" using c by (auto simp: x_def)
      have "ps' ! k = R ! x"
        using nth [OF k] c x inR [of x] by simp
      moreover have "?out ! k = R ! x"
        using x m by (simp add: nth_append min_def)
      ultimately show ?thesis by simp
    next
      case d
      define x where "x = k - ?as"
      have x: "k = ?as + x" "x < m" using d by (auto simp: x_def)
      have "ps' ! k = merge_right D en (R ! x) (Ad ! x)"
        using nth [OF k] d x m inR [of x] inAd [of x] by (simp add: add.commute add.left_commute)
      moreover have "?out ! k = merge_right D en (R ! x) (Ad ! x)"
        using x m by (simp add: nth_append min_def)
      ultimately show ?thesis by simp
    next
      case e
      define x where "x = k - (?as + m)"
      have x: "k = ?as + m + x" using e by (auto simp: x_def)
      let ?tl = "drop m Ad @ B"
      let ?h1 = "A @ R @ take m Ad"
      let ?h2 = "A @ map2 (merge_left D en) (take m R) (take m Ad) @ drop m R
                   @ map2 (merge_right D en) (take m R) (take m Ad)"
      have p1: "?ps = ?h1 @ ?tl" by simp
      have l1: "length ?h1 = ?as + m" using m by simp
      have p2: "?out = ?h2 @ ?tl" by simp
      have l2: "length ?h2 = ?as + m" using m by (simp add: min_def)
      have k1: "k = length ?h1 + x" using l1 x by simp
      have k2: "k = length ?h2 + x" using l2 x by simp
      have "ps' ! k = ?ps ! k"
        using nth [OF k] e m by auto
      also have "\<dots> = (?h1 @ ?tl) ! k"
        using arg_cong [OF p1, of "\<lambda>l. l ! k"] .
      also have "\<dots> = ?tl ! x"
        by (subst k1) (rule nth_append_length_plus)
      finally have a: "ps' ! k = ?tl ! x" .
      have "?out ! k = (?h2 @ ?tl) ! k"
        using arg_cong [OF p2, of "\<lambda>l. l ! k"] .
      also have "\<dots> = ?tl ! x"
        by (subst k2) (rule nth_append_length_plus)
      finally show ?thesis using a by simp
    qed
  qed
  with ml show ?thesis by simp
qed

text \<open>
  The pass as one forward sweep over the list, before the final filter: a run of
  left-only pairs that starts with a removed line and is directly followed by an added
  line is merged index by index with the run of right-only pairs behind it; everything
  else is copied.
\<close>

function mark :: "difflib \<Rightarrow> bool \<Rightarrow> pair list \<Rightarrow> pair list" where
  "mark D en [] = []"
| "mark D en (p # ps) =
     (if removed_start p then
        (let R = takeWhile left_only (p # ps);
             T1 = dropWhile left_only (p # ps)
         in if T1 \<noteq> [] \<and> added_start (hd T1) then
              (let Ad = takeWhile right_only T1;
                   T2 = dropWhile right_only T1;
                   m = min (length R) (length Ad)
               in map2 (merge_left D en) (take m R) (take m Ad) @ drop m R
                    @ map2 (merge_right D en) (take m R) (take m Ad) @ drop m Ad
                    @ mark D en T2)
            else R @ mark D en T1)
      else p # mark D en ps)"
  by pat_completeness auto
termination
proof (relation "measure (\<lambda>(D, en, ps). length ps)")
  show "wf (measure (\<lambda>(D, en, ps). length ps))" by simp
next
  fix D :: difflib and en :: bool and p :: pair and ps x xa xb xc
  assume "removed_start p" "xa = dropWhile left_only (p # ps)" "xc = dropWhile right_only xa"
  then have "length xc \<le> length xa" "length xa \<le> length ps"
    by (auto dest!: removed_start_left_only simp: length_dropWhile_le)
  then show "((D, en, xc), (D, en, p # ps)) \<in> measure (\<lambda>(D, en, ps). length ps)"
    by simp
next
  fix D :: difflib and en :: bool and p :: pair and ps x xa
  assume "removed_start p" "xa = dropWhile left_only (p # ps)"
  then have "length xa \<le> length ps"
    by (auto dest!: removed_start_left_only simp: length_dropWhile_le)
  then show "((D, en, xa), (D, en, p # ps)) \<in> measure (\<lambda>(D, en, ps). length ps)"
    by simp
next
  fix D :: difflib and en :: bool and p :: pair and ps
  show "((D, en, ps), (D, en, p # ps)) \<in> measure (\<lambda>(D, en, ps). length ps)"
    by simp
qed

declare mark.simps [simp del]

lemma mark_not_removed:
  "\<not> removed_start p \<Longrightarrow> mark D en (p # ps) = p # mark D en ps"
  by (simp add: mark.simps)

lemma mark_removed_plain:
  assumes "removed_start p"
    and "dropWhile left_only (p # ps) = [] \<or> \<not> added_start (hd (dropWhile left_only (p # ps)))"
  shows "mark D en (p # ps) =
           takeWhile left_only (p # ps) @ mark D en (dropWhile left_only (p # ps))"
  using assms by (subst mark.simps) (auto simp: Let_def)

lemma mark_removed_added:
  assumes "removed_start p"
    and "dropWhile left_only (p # ps) \<noteq> []"
    and "added_start (hd (dropWhile left_only (p # ps)))"
  shows "mark D en (p # ps) =
           (let R = takeWhile left_only (p # ps);
                T1 = dropWhile left_only (p # ps);
                Ad = takeWhile right_only T1;
                T2 = dropWhile right_only T1;
                m = min (length R) (length Ad)
            in map2 (merge_left D en) (take m R) (take m Ad) @ drop m R
                 @ map2 (merge_right D en) (take m R) (take m Ad) @ drop m Ad
                 @ mark D en T2)"
  using assms by (subst mark.simps) (simp add: Let_def)

lemma left_only_takeWhile_nth:
  "k < length (takeWhile left_only xs) \<Longrightarrow> left (takeWhile left_only xs ! k) \<noteq> None"
  using nth_mem [of k "takeWhile left_only xs"]
  by (auto dest!: set_takeWhileD simp: left_only_def simp del: nth_mem)

lemma right_only_takeWhile_nth:
  "k < length (takeWhile right_only xs) \<Longrightarrow> right (takeWhile right_only xs ! k) \<noteq> None"
  using nth_mem [of k "takeWhile right_only xs"]
  by (auto dest!: set_takeWhileD simp: right_only_def simp del: nth_mem)

lemma detect_loop_mark:
  "snd s \<le> length (fst s) \<Longrightarrow>
     detect_loop D en s = Some (take (snd s) (fst s) @ mark D en (drop (snd s) (fst s)))"
proof (induction D en s rule: detect_loop.induct)
  case (1 D en s)
  obtain ps i where s: "s = (ps, i)" by (cases s)
  show ?case
  proof (cases "i < length ps")
    case False
    with "1.prems" s have "i = length ps" by simp
    with s show ?thesis by (subst detect_loop.simps) (simp add: mark.simps)
  next
    case True
    define p where "p = ps ! i"
    define T where "T = drop (Suc i) ps"
    have dr: "drop i ps = p # T"
      using True by (simp add: p_def T_def Cons_nth_drop_Suc)
    have unf: "\<And>s'. detect_step D en s = Some s' \<Longrightarrow> detect_loop D en s = detect_loop D en s'"
      using True s by (subst detect_loop.simps) simp
    show ?thesis
    proof (cases "removed_start p")
      case False
      have st: "detect_step D en s = Some (ps, i + 1)"
        using False s by (simp add: detect_step_def p_def)
      have "detect_loop D en (ps, i + 1) =
              Some (take (i + 1) ps @ mark D en (drop (i + 1) ps))"
        using "1.IH" [of "(ps, i + 1)"] True s st by simp
      moreover have "take (i + 1) ps = take i ps @ [p]"
        using True by (simp add: p_def take_Suc_conv_app_nth)
      ultimately show ?thesis
        using unf [OF st] s dr False by (simp add: mark_not_removed T_def)
    next
      case rem: True
      define R where "R = takeWhile left_only (p # T)"
      define T1 where "T1 = dropWhile left_only (p # T)"
      define i1 where "i1 = scan_left_only ps i"
      have i1: "i1 = i + length R"
        using True dr by (simp add: i1_def R_def scan_left_only_eq)
      have RT1: "p # T = R @ T1" by (simp add: R_def T1_def)
      have Rpos: "0 < length R"
        using rem by (auto simp: R_def dest: removed_start_left_only)
      have i1le: "i1 \<le> length ps"
        using True by (simp add: i1_def scan_left_only_le)
      have d1: "drop i1 ps = T1"
        unfolding i1 T1_def R_def
        by (metis add.commute dr dropWhile_eq_drop drop_drop)
      have t1: "take i1 ps = take i ps @ R"
      proof -
        have "take i1 ps = take i ps @ take (length R) (drop i ps)"
          unfolding i1 by (simp add: take_add)
        then show ?thesis using dr RT1 by simp
      qed
      show ?thesis
      proof (cases "i1 < length ps \<and> added_start (ps ! i1)")
        case False
        have st: "detect_step D en s = Some (ps, i1)"
          using False rem s by (auto simp: detect_step_def p_def i1_def Let_def)
        have "detect_loop D en (ps, i1) = Some (take i1 ps @ mark D en (drop i1 ps))"
          using "1.IH" [of "(ps, i1)"] True s st i1le by simp
        moreover have "T1 = [] \<or> \<not> added_start (hd T1)"
        proof (cases "i1 < length ps")
          case True
          then have "ps ! i1 = hd T1" using d1 by (metis hd_drop_conv_nth)
          with False True show ?thesis by simp
        next
          case False
          then show ?thesis using d1 by auto
        qed
        then have "mark D en (p # T) = R @ mark D en T1"
          using rem unfolding R_def T1_def by (intro mark_removed_plain) auto
        ultimately show ?thesis
          using unf [OF st] s dr d1 t1 by simp
      next
        case add: True
        define Ad where "Ad = takeWhile right_only T1"
        define T2 where "T2 = dropWhile right_only T1"
        define i2 where "i2 = scan_right_only ps i1"
        define m where "m = min (length R) (length Ad)"
        define seg where "seg = map2 (merge_left D en) (take m R) (take m Ad) @ drop m R
                 @ map2 (merge_right D en) (take m R) (take m Ad) @ drop m Ad"
        have T1ne: "T1 \<noteq> []" using add d1 by auto
        have hd1: "ps ! i1 = hd T1" using add d1 by (metis hd_drop_conv_nth)
        have i2: "i2 = i1 + length Ad"
          using i1le d1 by (simp add: i2_def Ad_def scan_right_only_eq)
        have AT2: "T1 = Ad @ T2" by (simp add: Ad_def T2_def)
        have Apos: "0 < length Ad"
          using add hd1 T1ne by (cases T1) (auto simp: Ad_def dest: added_start_right_only)
        have whole: "ps = take i ps @ R @ Ad @ T2"
          using dr RT1 AT2 by (metis append_take_drop_id)
        have li: "length (take i ps) = i" using True by simp
        have "merge_loop D en (length (take i ps)) (length (take i ps) + length R) m
                (take i ps @ R @ Ad @ T2) 0 = Some (take i ps @ seg @ T2)"
          unfolding seg_def
          using merge_loop_runs [of m R Ad D en "take i ps" T2]
            left_only_takeWhile_nth [of _ "p # T"] right_only_takeWhile_nth [of _ T1]
          by (simp add: m_def R_def Ad_def)
        then have ml: "merge_loop D en i i1 m ps 0 = Some (take i ps @ seg @ T2)"
          using whole li i1 by simp
        have cnt: "min (i1 - 1 - i + 1) (i2 - 1 - i1 + 1) = m"
          using i1 i2 Rpos Apos by (simp add: m_def)
        have st: "detect_step D en s = Some (take i ps @ seg @ T2, i2)"
          using add rem s ml cnt
          by (simp add: detect_step_def p_def [symmetric] i1_def [symmetric] i2_def [symmetric] Let_def)
        have lseg: "length seg = length R + length Ad"
          by (simp add: seg_def m_def min_def)
        have i2len: "length (take i ps @ seg) = i2"
          using li lseg i1 i2 by simp
        have "detect_loop D en (take i ps @ seg @ T2, i2) =
                Some (take i2 (take i ps @ seg @ T2) @ mark D en (drop i2 (take i ps @ seg @ T2)))"
          using "1.IH" [of "(take i ps @ seg @ T2, i2)"] True s st i2len by simp
        moreover have "take i2 (take i ps @ seg @ T2) = take i ps @ seg"
          using i2len by (metis append.assoc append_eq_conv_conj)
        moreover have "drop i2 (take i ps @ seg @ T2) = T2"
          using i2len by (metis append.assoc append_eq_conv_conj)
        moreover have "mark D en (p # T) = seg @ mark D en T2"
          using rem T1ne add hd1
          by (simp add: mark_removed_added [of p T D en] Let_def seg_def m_def R_def T1_def Ad_def T2_def)
        ultimately show ?thesis
          using unf [OF st] s dr by simp
      qed
    qed
  qed
qed

text \<open>
  The outer loop with a bound on the number of rounds: \<open>None\<close> when the bound is used up
  before the loop condition fails (or when a round throws).
\<close>

fun detect_fuel :: "difflib \<Rightarrow> bool \<Rightarrow> nat \<Rightarrow> pair list \<times> nat \<Rightarrow> pair list option" where
  "detect_fuel D en 0 s = (if snd s < length (fst s) then None else Some (fst s))"
| "detect_fuel D en (Suc n) s =
     (if snd s < length (fst s) then
        (case detect_step D en s of
           None \<Rightarrow> None
         | Some s' \<Rightarrow> detect_fuel D en n s')
      else Some (fst s))"

lemma detect_step_total:
  assumes "snd s < length (fst s)"
  shows "\<exists>s'. detect_step D en s = Some s'"
proof (cases "detect_step D en s")
  case None
  with assms have "detect_loop D en s = None"
    by (subst detect_loop.simps) simp
  with detect_loop_mark [of s D en] assms show ?thesis by simp
next
  case (Some s')
  then show ?thesis by blast
qed

lemma detect_fuel_loop:
  "length (fst s) - snd s \<le> n \<Longrightarrow> detect_fuel D en n s = detect_loop D en s"
proof (induction n arbitrary: s)
  case 0
  then show ?case by (subst detect_loop.simps) simp
next
  case (Suc n)
  show ?case
  proof (cases "snd s < length (fst s)")
    case False
    then show ?thesis by (subst detect_loop.simps) simp
  next
    case True
    from detect_step_total [OF True] obtain s' where st: "detect_step D en s = Some s'"
      by blast
    from detect_step_progress [OF True st] Suc.prems
    have "length (fst s') - snd s' \<le> n" by linarith
    from Suc.IH [OF this] True st show ?thesis
      by (subst detect_loop.simps) simp
  qed
qed

lemma detect_step_advance:
  assumes "snd s < length (fst s)" "detect_step D en s = Some s'"
  shows "(removed_start (fst s ! snd s) \<longrightarrow>
            snd s + length (takeWhile left_only (drop (snd s) (fst s))) \<le> snd s')
       \<and> (\<not> removed_start (fst s ! snd s) \<longrightarrow> snd s' = snd s + 1)"
proof (cases "removed_start (fst s ! snd s)")
  case False
  with assms show ?thesis by (auto simp: detect_step_def Let_def)
next
  case True
  let ?ps = "fst s" and ?i = "snd s"
  let ?i1 = "scan_left_only ?ps ?i"
  have i1: "?i1 = ?i + length (takeWhile left_only (drop ?i ?ps))"
    using assms(1) by (simp add: scan_left_only_eq)
  have "?i1 \<le> snd s'"
  proof (cases "?i1 < length ?ps \<and> added_start (?ps ! ?i1)")
    case False
    with True assms(2) have "s' = (?ps, ?i1)"
      by (auto simp: detect_step_def Let_def)
    then show ?thesis by simp
  next
    case A: True
    with True assms(2) have "snd s' = scan_right_only ?ps ?i1"
      by (auto simp: detect_step_def Let_def split: option.splits)
    then show ?thesis by (simp add: scan_right_only_ge)
  qed
  with True i1 show ?thesis by simp
qed

lemma detectModifications_mark:
  "detectModifications D this r =
     Some (r\<lparr>pairs := filter (\<lambda>p. \<not> merged p) (mark D (enableCharDiff this) (pairs r))\<rparr>)"
  using detect_loop_mark [of "(pairs r, 0)" D "enableCharDiff this"]
  by (simp add: detectModifications_def)

text \<open>The three shapes of pair that the pairing stage builds.\<close>

definition removed_pair :: "line \<Rightarrow> pair" where
  "removed_pair l = \<lparr>left = Some l, right = None, merged = False\<rparr>"

definition added_pair :: "line \<Rightarrow> pair" where
  "added_pair r = \<lparr>left = None, right = Some r, merged = False\<rparr>"

definition common_pair :: "line \<Rightarrow> line \<Rightarrow> pair" where
  "common_pair l r = \<lparr>left = Some l, right = Some r, merged = False\<rparr>"

definition mk_line :: "nat \<Rightarrow> string \<Rightarrow> kind \<Rightarrow> line" where
  "mk_line n c k = \<lparr>lineNum = n, content = c, type = k, charDiff = None\<rparr>"

definition no_diff :: difflib where
  "no_diff = \<lparr>diffLines = (\<lambda>l r. []), diffChars = (\<lambda>l r. [])\<rparr>"

lemma mark_Nil: "mark D en [] = []"
  by (simp add: mark.simps)

lemma mark_append:
  assumes "pre = [] \<or> \<not> left_only (last pre)" "X = [] \<or> \<not> right_only (hd X)"
  shows "mark D en (pre @ X) = mark D en pre @ mark D en X"
  using assms(1)
proof (induction "length pre" arbitrary: pre rule: less_induct)
  case less
  show ?case
  proof (cases pre)
    case Nil
    then show ?thesis by (simp add: mark_Nil)
  next
    case (Cons p ps)
    with less.prems have nl: "\<not> left_only (last pre)" by simp
    have lastin: "last pre \<in> set pre" using Cons by simp
    show ?thesis
    proof (cases "removed_start p")
      case False
      have "ps = [] \<or> \<not> left_only (last ps)" using nl Cons by auto
      then have "mark D en (ps @ X) = mark D en ps @ mark D en X"
        using less.hyps [of ps] Cons by simp
      with False Cons show ?thesis by (simp add: mark_not_removed)
    next
      case rem: True
      define R where "R = takeWhile left_only pre"
      define T1 where "T1 = dropWhile left_only pre"
      have RT: "pre = R @ T1" by (simp add: R_def T1_def)
      have T1ne: "T1 \<noteq> []"
        unfolding T1_def using lastin nl by (auto simp: dropWhile_eq_Nil_conv)
      have Rne: "R \<noteq> []"
        unfolding R_def using rem Cons by (auto dest: removed_start_left_only)
      have lT1: "last T1 = last pre" using RT T1ne by (metis last_appendR)
      have lenT1: "length T1 < length pre" using RT Rne by (metis length_append length_greater_0_conv less_add_same_cancel2)
      have tw: "takeWhile left_only (pre @ X) = R"
        unfolding R_def using lastin nl by (rule takeWhile_append1)
      have dw: "dropWhile left_only (pre @ X) = T1 @ X"
        unfolding T1_def using lastin nl by (rule dropWhile_append1)
      show ?thesis
      proof (cases "added_start (hd T1)")
        case False
        have a: "mark D en (pre @ X) = R @ mark D en (T1 @ X)"
          using mark_removed_plain [of p "ps @ X" D en] rem False T1ne tw dw Cons by simp
        have b: "mark D en pre = R @ mark D en T1"
          using mark_removed_plain [of p ps D en] rem False Cons by (simp add: R_def T1_def)
        have "mark D en (T1 @ X) = mark D en T1 @ mark D en X"
          using less.hyps [of T1] lenT1 lT1 nl by simp
        with a b show ?thesis by simp
      next
        case add: True
        define Ad where "Ad = takeWhile right_only T1"
        define T2 where "T2 = dropWhile right_only T1"
        define m where "m = min (length R) (length Ad)"
        define seg where "seg = map2 (merge_left D en) (take m R) (take m Ad) @ drop m R
                 @ map2 (merge_right D en) (take m R) (take m Ad) @ drop m Ad"
        have AT: "T1 = Ad @ T2" by (simp add: Ad_def T2_def)
        have b: "mark D en pre = seg @ mark D en T2"
          using mark_removed_added [of p ps D en] rem add T1ne Cons
          by (simp add: Let_def seg_def m_def R_def T1_def Ad_def T2_def)
        have c: "takeWhile right_only (T1 @ X) = Ad \<and>
                 mark D en (dropWhile right_only (T1 @ X)) = mark D en T2 @ mark D en X"
        proof (cases "T2 = []")
          case True
          then have all: "\<And>x. x \<in> set T1 \<Longrightarrow> right_only x"
            by (auto simp: T2_def dropWhile_eq_Nil_conv)
          have x: "takeWhile right_only X = []" "dropWhile right_only X = X"
            using assms(2) by (cases X; simp)+
          have "takeWhile right_only (T1 @ X) = T1 @ takeWhile right_only X"
            using all by (rule takeWhile_append2)
          moreover have "dropWhile right_only (T1 @ X) = dropWhile right_only X"
            using all by (rule dropWhile_append2)
          ultimately show ?thesis using x True AT by (simp add: mark_Nil)
        next
          case False
          then obtain y where y: "y \<in> set T1" "\<not> right_only y"
            by (auto simp: T2_def dropWhile_eq_Nil_conv)
          have t: "takeWhile right_only (T1 @ X) = Ad"
            unfolding Ad_def using y by (rule takeWhile_append1)
          have d: "dropWhile right_only (T1 @ X) = T2 @ X"
            unfolding T2_def using y by (rule dropWhile_append1)
          have "last T2 = last pre" using AT False lT1 by (metis last_appendR)
          moreover have "length T2 < length pre" using AT lenT1 by (metis length_append trans_less_add2 add.commute less_imp_le_nat not_less le_add2 le_trans)
          ultimately have "mark D en (T2 @ X) = mark D en T2 @ mark D en X"
            using less.hyps [of T2] nl by simp
          with t d show ?thesis by simp
        qed
        have hd: "hd (T1 @ X) = hd T1" using T1ne by simp
        have a: "mark D en (pre @ X) = seg @ mark D en T2 @ mark D en X"
          using mark_removed_added [of p "ps @ X" D en] rem add T1ne Cons tw dw hd c
          by (simp add: Let_def seg_def m_def)
        from a b show ?thesis by simp
      qed
    qed
  qed
qed

text \<open>The pair that replaces the i-th removed and the i-th added pair of two adjacent runs.\<close>

definition modified_pair :: "difflib \<Rightarrow> bool \<Rightarrow> line \<Rightarrow> line \<Rightarrow> pair" where
  "modified_pair D en l r =
     \<lparr>left = Some (mod_left D en l r), right = Some (mod_right D en l r), merged = False\<rparr>"

lemma left_only_removed_pair [simp]: "left_only (removed_pair l)"
  by (simp add: left_only_def removed_pair_def)

lemma right_only_added_pair [simp]: "right_only (added_pair r)"
  by (simp add: right_only_def added_pair_def)

lemma not_left_only_added_pair [simp]: "\<not> left_only (added_pair r)"
  by (simp add: left_only_def added_pair_def)

lemma not_right_only_removed_pair [simp]: "\<not> right_only (removed_pair l)"
  by (simp add: right_only_def removed_pair_def)

lemma removed_start_removed_pair [simp]: "removed_start (removed_pair l) = (type l = Removed)"
  by (simp add: removed_start_def removed_pair_def)

lemma added_start_added_pair [simp]: "added_start (added_pair r) = (type r = Added)"
  by (simp add: added_start_def added_pair_def)

lemma merge_left_pairs [simp]:
  "merge_left D en (removed_pair l) (added_pair r) = modified_pair D en l r"
  by (simp add: merge_left_def removed_pair_def added_pair_def modified_pair_def)

lemma merged_merge_right_pairs [simp]:
  "merged (merge_right D en (removed_pair l) (added_pair r))"
  by (simp add: merge_right_def removed_pair_def added_pair_def)

lemma not_merged_simps [simp]:
  "\<not> merged (removed_pair l)" "\<not> merged (added_pair r)" "\<not> merged (modified_pair D en l r)"
  by (simp_all add: removed_pair_def added_pair_def modified_pair_def)

lemma takeWhile_left_only_run:
  assumes "T = [] \<or> \<not> left_only (hd T)"
  shows "takeWhile left_only (map removed_pair ls @ T) = map removed_pair ls"
    and "dropWhile left_only (map removed_pair ls @ T) = T"
proof -
  have all: "\<And>x. x \<in> set (map removed_pair ls) \<Longrightarrow> left_only x" by auto
  have t: "takeWhile left_only T = []" "dropWhile left_only T = T"
    using assms by (cases T; simp)+
  show "takeWhile left_only (map removed_pair ls @ T) = map removed_pair ls"
    using takeWhile_append2 [of "map removed_pair ls" left_only T] all t by simp
  show "dropWhile left_only (map removed_pair ls @ T) = T"
    using dropWhile_append2 [of "map removed_pair ls" left_only T] all t by simp
qed

lemma takeWhile_right_only_run:
  assumes "T = [] \<or> \<not> right_only (hd T)"
  shows "takeWhile right_only (map added_pair rs @ T) = map added_pair rs"
    and "dropWhile right_only (map added_pair rs @ T) = T"
proof -
  have all: "\<And>x. x \<in> set (map added_pair rs) \<Longrightarrow> right_only x" by auto
  have t: "takeWhile right_only T = []" "dropWhile right_only T = T"
    using assms by (cases T; simp)+
  show "takeWhile right_only (map added_pair rs @ T) = map added_pair rs"
    using takeWhile_append2 [of "map added_pair rs" right_only T] all t by simp
  show "dropWhile right_only (map added_pair rs @ T) = T"
    using dropWhile_append2 [of "map added_pair rs" right_only T] all t by simp
qed

lemma mark_removed_run:
  assumes "ls \<noteq> []" "type (hd ls) = Removed"
    and "T = [] \<or> (\<not> left_only (hd T) \<and> \<not> added_start (hd T))"
  shows "mark D en (map removed_pair ls @ T) = map removed_pair ls @ mark D en T"
proof -
  obtain l ls' where ls: "ls = l # ls'" using assms(1) by (cases ls) auto
  have T: "T = [] \<or> \<not> left_only (hd T)" using assms(3) by auto
  have "mark D en (removed_pair l # (map removed_pair ls' @ T)) =
          takeWhile left_only (removed_pair l # (map removed_pair ls' @ T))
            @ mark D en (dropWhile left_only (removed_pair l # (map removed_pair ls' @ T)))"
  proof (rule mark_removed_plain)
    show "removed_start (removed_pair l)" using assms(2) ls by simp
    show "dropWhile left_only (removed_pair l # map removed_pair ls' @ T) = [] \<or>
          \<not> added_start (hd (dropWhile left_only (removed_pair l # map removed_pair ls' @ T)))"
      using takeWhile_left_only_run(2) [OF T, of ls] assms(3) ls by auto
  qed
  then show ?thesis
    using takeWhile_left_only_run [OF T, of ls] ls by simp
qed

lemma mark_removed_added_run:
  assumes "ls \<noteq> []" "type (hd ls) = Removed" "rs \<noteq> []" "type (hd rs) = Added"
    and "T = [] \<or> \<not> right_only (hd T)"
  shows "filter (\<lambda>p. \<not> merged p) (mark D en (map removed_pair ls @ map added_pair rs @ T)) =
           map2 (modified_pair D en) (take (min (length ls) (length rs)) ls)
                                     (take (min (length ls) (length rs)) rs)
           @ map removed_pair (drop (min (length ls) (length rs)) ls)
           @ map added_pair (drop (min (length ls) (length rs)) rs)
           @ filter (\<lambda>p. \<not> merged p) (mark D en T)"
proof -
  obtain l ls' where ls: "ls = l # ls'" using assms(1) by (cases ls) auto
  obtain r rs' where rs: "rs = r # rs'" using assms(3) by (cases rs) auto
  define m where "m = min (length ls) (length rs)"
  let ?R = "map removed_pair ls" and ?Ad = "map added_pair rs"
  let ?T1 = "?Ad @ T"
  have T1: "?T1 = [] \<or> \<not> left_only (hd ?T1)" using rs by simp
  have tw1: "takeWhile left_only (?R @ ?T1) = ?R" "dropWhile left_only (?R @ ?T1) = ?T1"
    using takeWhile_left_only_run [OF T1, of ls] by simp_all
  have tw2: "takeWhile right_only ?T1 = ?Ad" "dropWhile right_only ?T1 = T"
    using takeWhile_right_only_run [OF assms(5), of rs] by simp_all
  have "mark D en (removed_pair l # (map removed_pair ls' @ ?T1)) =
           (let R = takeWhile left_only (removed_pair l # (map removed_pair ls' @ ?T1));
                T1 = dropWhile left_only (removed_pair l # (map removed_pair ls' @ ?T1));
                Ad = takeWhile right_only T1;
                T2 = dropWhile right_only T1;
                m = min (length R) (length Ad)
            in map2 (merge_left D en) (take m R) (take m Ad) @ drop m R
                 @ map2 (merge_right D en) (take m R) (take m Ad) @ drop m Ad
                 @ mark D en T2)"
  proof (rule mark_removed_added)
    show "removed_start (removed_pair l)" using assms(2) ls by simp
    show "dropWhile left_only (removed_pair l # map removed_pair ls' @ ?T1) \<noteq> []"
      using tw1(2) ls rs by simp
    show "added_start (hd (dropWhile left_only (removed_pair l # map removed_pair ls' @ ?T1)))"
      using tw1(2) ls rs assms(4) by simp
  qed
  then have mk: "mark D en (?R @ ?T1) =
      map2 (merge_left D en) (take m ?R) (take m ?Ad) @ drop m ?R
        @ map2 (merge_right D en) (take m ?R) (take m ?Ad) @ drop m ?Ad @ mark D en T"
    using tw1 tw2 ls by (simp add: Let_def m_def)
  have z1: "map2 (merge_left D en) (take m ?R) (take m ?Ad) =
              map2 (modified_pair D en) (take m ls) (take m rs)"
    by (auto simp: take_map zip_map_map)
  have z2: "filter (\<lambda>p. \<not> merged p) (map2 (merge_right D en) (take m ?R) (take m ?Ad)) = []"
    by (auto simp: take_map zip_map_map filter_empty_conv)
  have z3: "filter (\<lambda>p. \<not> merged p) (map2 (modified_pair D en) (take m ls) (take m rs)) =
              map2 (modified_pair D en) (take m ls) (take m rs)"
    by (auto simp: filter_id_conv)
  have z4: "filter (\<lambda>p. \<not> merged p) (map removed_pair xs) = map removed_pair xs"
           "filter (\<lambda>p. \<not> merged p) (map added_pair xs) = map added_pair xs" for xs
    by (auto simp: filter_id_conv)
  show ?thesis
    unfolding m_def [symmetric]
    using arg_cong [OF mk, of "filter (\<lambda>p. \<not> merged p)"] z2 z3 z4
    by (simp add: z1 drop_map)
qed

section \<open>Projections and shapes of pairs\<close>

text \<open>The lines of one side of a pair sequence, in order, absent sides dropped.\<close>

definition project_left :: "pair list \<Rightarrow> line list" where
  "project_left ps = concat (map (\<lambda>p. case left p of None \<Rightarrow> [] | Some l \<Rightarrow> [l]) ps)"

definition project_right :: "pair list \<Rightarrow> line list" where
  "project_right ps = concat (map (\<lambda>p. case right p of None \<Rightarrow> [] | Some r \<Rightarrow> [r]) ps)"

lemma project_left_simps [simp]:
  "project_left [] = []"
  "project_left (p # ps) = (case left p of None \<Rightarrow> [] | Some l \<Rightarrow> [l]) @ project_left ps"
  "project_left (ps @ qs) = project_left ps @ project_left qs"
  by (simp_all add: project_left_def)

lemma project_right_simps [simp]:
  "project_right [] = []"
  "project_right (p # ps) = (case right p of None \<Rightarrow> [] | Some r \<Rightarrow> [r]) @ project_right ps"
  "project_right (ps @ qs) = project_right ps @ project_right qs"
  by (simp_all add: project_right_def)

text \<open>
  A pair as the pairing stage builds it: a removed line alone, an added line alone, or
  two unchanged lines of the same content; no character spans, not flagged.
\<close>

definition fresh_pair :: "pair \<Rightarrow> bool" where
  "fresh_pair p =
     (\<not> merged p \<and>
      (case (left p, right p) of
         (Some l, Some r) \<Rightarrow>
           type l = Unchanged \<and> type r = Unchanged \<and> content l = content r
           \<and> charDiff l = None \<and> charDiff r = None
       | (Some l, None) \<Rightarrow> type l = Removed \<and> charDiff l = None
       | (None, Some r) \<Rightarrow> type r = Added \<and> charDiff r = None
       | (None, None) \<Rightarrow> False))"

text \<open>
  A pair as the modification pass leaves it: as above, or two modified lines, which
  carry character spans exactly when character diffing is enabled.
\<close>

definition final_pair :: "bool \<Rightarrow> pair \<Rightarrow> bool" where
  "final_pair en p =
     (\<not> merged p \<and>
      (case (left p, right p) of
         (Some l, Some r) \<Rightarrow>
           (type l = Unchanged \<and> type r = Unchanged \<and> content l = content r
            \<and> charDiff l = None \<and> charDiff r = None)
           \<or> (type l = Modified \<and> type r = Modified
               \<and> (charDiff l \<noteq> None) = en \<and> (charDiff r \<noteq> None) = en)
       | (Some l, None) \<Rightarrow> type l = Removed \<and> charDiff l = None
       | (None, Some r) \<Rightarrow> type r = Added \<and> charDiff r = None
       | (None, None) \<Rightarrow> False))"

lemma fresh_final: "fresh_pair p \<Longrightarrow> final_pair en p"
  by (auto simp: fresh_pair_def final_pair_def split: option.splits)

section \<open>The pairing stage\<close>

definition pairing_inv :: "pairing \<Rightarrow> bool" where
  "pairing_inv st =
     (leftLineNum st = Suc (length (res_left (result st)))
      \<and> rightLineNum st = Suc (length (res_right (result st)))
      \<and> map lineNum (res_left (result st)) = [1 ..< Suc (length (res_left (result st)))]
      \<and> map lineNum (res_right (result st)) = [1 ..< Suc (length (res_right (result st)))]
      \<and> project_left (pairs (result st)) = res_left (result st)
      \<and> project_right (pairs (result st)) = res_right (result st)
      \<and> list_all fresh_pair (pairs (result st)))"

lemma foldl_invariant:
  assumes "P s" and "\<And>s x. P s \<Longrightarrow> x \<in> set xs \<Longrightarrow> P (f s x)"
  shows "P (foldl f s xs)"
  using assms by (induction xs arbitrary: s) auto

lemma pairing_inv_init: "pairing_inv pairing_init"
  by (simp add: pairing_inv_def pairing_init_def)

lemma pairing_inv_emit_line: "pairing_inv st \<Longrightarrow> pairing_inv (emit_line p st ln)"
  by (auto simp: pairing_inv_def emit_line_def Let_def fresh_pair_def)

lemma pairing_inv_emit_part: "pairing_inv st \<Longrightarrow> pairing_inv (emit_part st p)"
  unfolding emit_part_def by (rule foldl_invariant) (auto intro: pairing_inv_emit_line)

lemma pairing_inv_pair_lines: "pairing_inv (foldl emit_part pairing_init diff)"
  by (rule foldl_invariant) (auto intro: pairing_inv_init pairing_inv_emit_part)

lemma pair_lines_facts:
  "map lineNum (res_left (pair_lines diff)) = [1 ..< Suc (length (res_left (pair_lines diff)))]"
  "map lineNum (res_right (pair_lines diff)) = [1 ..< Suc (length (res_right (pair_lines diff)))]"
  "project_left (pairs (pair_lines diff)) = res_left (pair_lines diff)"
  "project_right (pairs (pair_lines diff)) = res_right (pair_lines diff)"
  "list_all fresh_pair (pairs (pair_lines diff))"
  using pairing_inv_pair_lines [of diff] by (simp_all add: pairing_inv_def pair_lines_def)

text \<open>What the pairing stage stores as contents: the lines of the change objects.\<close>

definition left_part_lines :: "part list \<Rightarrow> string list" where
  "left_part_lines diff =
     concat (map (\<lambda>p. if part_added p then [] else part_lines (part_value p)) diff)"

definition right_part_lines :: "part list \<Rightarrow> string list" where
  "right_part_lines diff =
     concat (map (\<lambda>p. if \<not> part_added p \<and> part_removed p then [] else part_lines (part_value p)) diff)"

lemma emit_lines_content:
  "map content (res_left (result (foldl (emit_line p) st lns))) =
     map content (res_left (result st)) @ (if part_added p then [] else lns)"
  "map content (res_right (result (foldl (emit_line p) st lns))) =
     map content (res_right (result st)) @ (if \<not> part_added p \<and> part_removed p then [] else lns)"
  by (induction lns arbitrary: st) (auto simp: emit_line_def Let_def)

lemma emit_parts_content:
  "map content (res_left (result (foldl emit_part st diff))) =
     map content (res_left (result st)) @ left_part_lines diff"
  "map content (res_right (result (foldl emit_part st diff))) =
     map content (res_right (result st)) @ right_part_lines diff"
  by (induction diff arbitrary: st)
     (simp_all add: left_part_lines_def right_part_lines_def emit_part_def emit_lines_content)

lemma pair_lines_content:
  "map content (res_left (pair_lines diff)) = left_part_lines diff"
  "map content (res_right (pair_lines diff)) = right_part_lines diff"
  by (simp_all add: pair_lines_def emit_parts_content pairing_init_def)

section \<open>Invariants of the modification pass\<close>

definition merge_runs :: "difflib \<Rightarrow> bool \<Rightarrow> pair list \<Rightarrow> pair list \<Rightarrow> pair list" where
  "merge_runs D en R Ad =
     (let m = min (length R) (length Ad)
      in map2 (merge_left D en) (take m R) (take m Ad) @ drop m R
           @ map2 (merge_right D en) (take m R) (take m Ad) @ drop m Ad)"

lemma takeWhile_run:
  assumes "\<forall>x \<in> set R. P x" "T = [] \<or> \<not> P (hd T)"
  shows "takeWhile P (R @ T) = R" "dropWhile P (R @ T) = T"
proof -
  have t: "takeWhile P T = []" "dropWhile P T = T"
    using assms(2) by (cases T; simp)+
  show "takeWhile P (R @ T) = R"
    using takeWhile_append2 [of R P T] assms(1) t by simp
  show "dropWhile P (R @ T) = T"
    using dropWhile_append2 [of R P T] assms(1) t by simp
qed

lemma left_right_only_excl: "right_only p \<Longrightarrow> \<not> left_only p"
  by (simp add: left_only_def right_only_def)

lemma mark_plain_eq:
  assumes "R \<noteq> []" "\<forall>x \<in> set R. left_only x" "removed_start (hd R)"
    and "T1 = [] \<or> (\<not> left_only (hd T1) \<and> \<not> added_start (hd T1))"
  shows "mark D en (R @ T1) = R @ mark D en T1"
proof -
  obtain p ps where R: "R = p # ps" using assms(1) by (cases R) auto
  have T: "T1 = [] \<or> \<not> left_only (hd T1)" using assms(4) by auto
  note tw = takeWhile_run [OF assms(2) T]
  have "mark D en (p # (ps @ T1)) =
          takeWhile left_only (p # (ps @ T1)) @ mark D en (dropWhile left_only (p # (ps @ T1)))"
  proof (rule mark_removed_plain)
    show "removed_start p" using assms(3) R by simp
    show "dropWhile left_only (p # ps @ T1) = [] \<or>
          \<not> added_start (hd (dropWhile left_only (p # ps @ T1)))"
      using tw(2) assms(4) R by auto
  qed
  then show ?thesis using tw R by simp
qed

lemma mark_merge_eq:
  assumes "R \<noteq> []" "Ad \<noteq> []" "\<forall>x \<in> set R. left_only x" "\<forall>x \<in> set Ad. right_only x"
    and "removed_start (hd R)" "added_start (hd Ad)" "T2 = [] \<or> \<not> right_only (hd T2)"
  shows "mark D en (R @ Ad @ T2) = merge_runs D en R Ad @ mark D en T2"
proof -
  obtain p ps where R: "R = p # ps" using assms(1) by (cases R) auto
  have "\<not> left_only (hd (Ad @ T2))"
    using assms(2,4) by (cases Ad) (auto dest: left_right_only_excl)
  then have T: "Ad @ T2 = [] \<or> \<not> left_only (hd (Ad @ T2))" by simp
  note tw1 = takeWhile_run [OF assms(3) T]
  note tw2 = takeWhile_run [OF assms(4,7)]
  have "mark D en (p # (ps @ Ad @ T2)) =
           (let R = takeWhile left_only (p # (ps @ Ad @ T2));
                T1 = dropWhile left_only (p # (ps @ Ad @ T2));
                Ad = takeWhile right_only T1;
                T2 = dropWhile right_only T1;
                m = min (length R) (length Ad)
            in map2 (merge_left D en) (take m R) (take m Ad) @ drop m R
                 @ map2 (merge_right D en) (take m R) (take m Ad) @ drop m Ad
                 @ mark D en T2)"
  proof (rule mark_removed_added)
    show "removed_start p" using assms(5) R by simp
    show "dropWhile left_only (p # ps @ Ad @ T2) \<noteq> []"
      using tw1(2) R assms(2) by simp
    show "added_start (hd (dropWhile left_only (p # ps @ Ad @ T2)))"
      using tw1(2) R assms(2,6) by simp
  qed
  then show ?thesis
    using tw1 tw2 R by (simp add: Let_def merge_runs_def)
qed

lemma mark_runs_induct [case_names Nil Copy Plain Merge]:
  assumes "P []"
    and "\<And>p ps. \<not> removed_start p \<Longrightarrow> P ps \<Longrightarrow> P (p # ps)"
    and "\<And>R T1. R \<noteq> [] \<Longrightarrow> \<forall>x \<in> set R. left_only x \<Longrightarrow> removed_start (hd R) \<Longrightarrow>
           T1 = [] \<or> (\<not> left_only (hd T1) \<and> \<not> added_start (hd T1)) \<Longrightarrow> P T1 \<Longrightarrow> P (R @ T1)"
    and "\<And>R Ad T2. R \<noteq> [] \<Longrightarrow> Ad \<noteq> [] \<Longrightarrow> \<forall>x \<in> set R. left_only x \<Longrightarrow>
           \<forall>x \<in> set Ad. right_only x \<Longrightarrow> removed_start (hd R) \<Longrightarrow> added_start (hd Ad) \<Longrightarrow>
           T2 = [] \<or> \<not> right_only (hd T2) \<Longrightarrow> P T2 \<Longrightarrow> P (R @ Ad @ T2)"
  shows "P ps"
proof (induction "length ps" arbitrary: ps rule: less_induct)
  case less
  show ?case
  proof (cases ps)
    case Nil
    then show ?thesis using assms(1) by simp
  next
    case (Cons p ps')
    show ?thesis
    proof (cases "removed_start p")
      case False
      then show ?thesis using assms(2) less [of ps'] Cons by simp
    next
      case True
      define R where "R = takeWhile left_only ps"
      define T1 where "T1 = dropWhile left_only ps"
      have RT: "ps = R @ T1" by (simp add: R_def T1_def)
      have Rne: "R \<noteq> []" and hdR: "hd R = p"
        using True Cons by (auto simp: R_def dest: removed_start_left_only)
      have allR: "\<forall>x \<in> set R. left_only x"
        by (auto simp: R_def dest: set_takeWhileD)
      have T1h: "T1 = [] \<or> \<not> left_only (hd T1)"
        using hd_dropWhile [of left_only ps] by (auto simp: T1_def)
      have lenT1: "length T1 < length ps"
        using RT Rne by (metis length_append length_greater_0_conv less_add_same_cancel2)
      show ?thesis
      proof (cases "T1 \<noteq> [] \<and> added_start (hd T1)")
        case False
        with T1h have "T1 = [] \<or> (\<not> left_only (hd T1) \<and> \<not> added_start (hd T1))" by auto
        from assms(3) [OF Rne allR _ this] True hdR less [OF lenT1] RT
        show ?thesis by simp
      next
        case add: True
        define Ad where "Ad = takeWhile right_only T1"
        define T2 where "T2 = dropWhile right_only T1"
        have AT: "T1 = Ad @ T2" by (simp add: Ad_def T2_def)
        have Ane: "Ad \<noteq> []" and hdA: "hd Ad = hd T1"
          using add by (cases T1; auto simp: Ad_def dest: added_start_right_only)+
        have allA: "\<forall>x \<in> set Ad. right_only x"
          by (auto simp: Ad_def dest: set_takeWhileD)
        have T2h: "T2 = [] \<or> \<not> right_only (hd T2)"
          using hd_dropWhile [of right_only T1] by (auto simp: T2_def)
        have "length T2 < length ps" using lenT1 AT by simp
        from assms(4) [OF Rne Ane allR allA _ _ T2h less [OF this]] True hdR add hdA RT AT
        show ?thesis by simp
      qed
    qed
  qed
qed

text \<open>The pairs that \<open>detectModifications\<close> leaves in the result.\<close>

definition detected :: "difflib \<Rightarrow> bool \<Rightarrow> pair list \<Rightarrow> pair list" where
  "detected D en ps = filter (\<lambda>p. \<not> merged p) (mark D en ps)"

lemma merged_merge_left:
  "left_only p \<Longrightarrow> right_only q \<Longrightarrow> merged (merge_left D en p q) = merged p"
  by (auto simp: merge_left_def left_only_def right_only_def)

lemma merged_merge_right:
  "left_only p \<Longrightarrow> right_only q \<Longrightarrow> merged (merge_right D en p q)"
  by (auto simp: merge_right_def left_only_def right_only_def)

lemma zip_take_mem:
  "(p, q) \<in> set (zip (take m R) (take m Ad)) \<Longrightarrow> p \<in> set R \<and> q \<in> set Ad"
  by (meson in_set_takeD set_zip_leftD set_zip_rightD)

lemma filter_merge_runs:
  assumes "\<forall>x \<in> set R. left_only x \<and> \<not> merged x" "\<forall>x \<in> set Ad. right_only x \<and> \<not> merged x"
  shows "filter (\<lambda>p. \<not> merged p) (merge_runs D en R Ad) =
           map2 (merge_left D en) (take (min (length R) (length Ad)) R)
                                  (take (min (length R) (length Ad)) Ad)
           @ drop (min (length R) (length Ad)) R @ drop (min (length R) (length Ad)) Ad"
proof -
  define m where "m = min (length R) (length Ad)"
  have z: "\<And>p q. (p, q) \<in> set (zip (take m R) (take m Ad)) \<Longrightarrow>
             left_only p \<and> \<not> merged p \<and> right_only q"
    using assms by (auto dest!: zip_take_mem)
  have a: "filter (\<lambda>p. \<not> merged p) (map2 (merge_left D en) (take m R) (take m Ad)) =
             map2 (merge_left D en) (take m R) (take m Ad)"
    using z by (auto simp: filter_id_conv merged_merge_left)
  have b: "filter (\<lambda>p. \<not> merged p) (map2 (merge_right D en) (take m R) (take m Ad)) = []"
    using z by (auto simp: filter_empty_conv merged_merge_right)
  have c: "filter (\<lambda>p. \<not> merged p) (drop m R) = drop m R"
          "filter (\<lambda>p. \<not> merged p) (drop m Ad) = drop m Ad"
    using assms by (auto simp: filter_id_conv dest: in_set_dropD)
  show ?thesis
    unfolding m_def [symmetric] by (simp add: merge_runs_def m_def [symmetric] a b c)
qed

lemma final_merge_left:
  assumes "fresh_pair p" "left_only p" "fresh_pair q" "right_only q"
  shows "final_pair en (merge_left D en p q)"
  using assms
  by (auto simp: fresh_pair_def final_pair_def left_only_def right_only_def merge_left_def
      mod_left_def mod_right_def split: option.splits)

lemma detected_final:
  "list_all fresh_pair ps \<Longrightarrow> list_all (final_pair en) (detected D en ps)"
proof (induction ps rule: mark_runs_induct)
  case Nil
  then show ?case by (simp add: detected_def mark_Nil)
next
  case (Copy p ps)
  then show ?case by (auto simp: detected_def mark_not_removed fresh_final)
next
  case (Plain R T1)
  have "detected D en (R @ T1) = filter (\<lambda>p. \<not> merged p) R @ detected D en T1"
    using mark_plain_eq [OF Plain(1-4)] by (simp add: detected_def)
  moreover have "list_all (final_pair en) (filter (\<lambda>p. \<not> merged p) R)"
    using Plain.prems by (auto simp: list_all_iff fresh_final)
  ultimately show ?case using Plain by simp
next
  case (Merge R Ad T2)
  define m where "m = min (length R) (length Ad)"
  have fr: "\<forall>x \<in> set R. fresh_pair x" "\<forall>x \<in> set Ad. fresh_pair x"
    using Merge.prems by (auto simp: list_all_iff)
  then have nm: "\<forall>x \<in> set R. left_only x \<and> \<not> merged x" "\<forall>x \<in> set Ad. right_only x \<and> \<not> merged x"
    using Merge(3,4) by (auto simp: fresh_pair_def)
  have eq: "detected D en (R @ Ad @ T2) =
          map2 (merge_left D en) (take m R) (take m Ad) @ drop m R @ drop m Ad @ detected D en T2"
    using mark_merge_eq [OF Merge(1-7)] filter_merge_runs [OF nm]
    by (simp add: detected_def m_def)
  have z: "\<And>p q. (p, q) \<in> set (zip (take m R) (take m Ad)) \<Longrightarrow>
             final_pair en (merge_left D en p q)"
    using fr Merge(3,4)
    by (auto intro!: final_merge_left dest!: zip_take_mem)
  have "list_all (final_pair en) (map2 (merge_left D en) (take m R) (take m Ad))"
    using z by (auto simp: list_all_iff)
  moreover have "list_all (final_pair en) (drop m R)" "list_all (final_pair en) (drop m Ad)"
    using fr by (auto simp: list_all_iff fresh_final dest: in_set_dropD)
  moreover have "list_all (final_pair en) (detected D en T2)"
    using Merge by simp
  ultimately show ?case unfolding eq by simp
qed

lemma project_left_right_only: "\<forall>x \<in> set ps. right_only x \<Longrightarrow> project_left ps = []"
  by (induction ps) (auto simp: right_only_def)

lemma project_right_left_only: "\<forall>x \<in> set ps. left_only x \<Longrightarrow> project_right ps = []"
  by (induction ps) (auto simp: left_only_def)

lemma project_map2_merge_left:
  assumes "length xs = length ys" "\<forall>x \<in> set xs. left_only x" "\<forall>y \<in> set ys. right_only y"
    and "\<And>l r. f (mod_left D en l r) = f l" "\<And>l r. g (mod_right D en l r) = g r"
  shows "map f (project_left (map2 (merge_left D en) xs ys)) = map f (project_left xs)
       \<and> map g (project_right (map2 (merge_left D en) xs ys)) = map g (project_right ys)"
  using assms(1-3)
proof (induction xs ys rule: list_induct2)
  case Nil
  then show ?case by simp
next
  case (Cons x xs y ys)
  then obtain l r where "left x = Some l" "right y = Some r"
    by (auto simp: left_only_def right_only_def)
  with Cons assms(4,5) show ?case by (simp add: merge_left_def)
qed

lemma detected_project:
  assumes "\<And>l r. f (mod_left D en l r) = f l" "\<And>l r. g (mod_right D en l r) = g r"
  shows "\<forall>x \<in> set ps. \<not> merged x \<Longrightarrow>
           map f (project_left (detected D en ps)) = map f (project_left ps)
         \<and> map g (project_right (detected D en ps)) = map g (project_right ps)"
proof (induction ps rule: mark_runs_induct)
  case Nil
  then show ?case by (simp add: detected_def mark_Nil)
next
  case (Copy p ps)
  then show ?case by (simp add: detected_def mark_not_removed)
next
  case (Plain R T1)
  have "detected D en (R @ T1) = R @ detected D en T1"
    using mark_plain_eq [OF Plain(1-4)] Plain.prems by (auto simp: detected_def filter_id_conv)
  then show ?case using Plain by simp
next
  case (Merge R Ad T2)
  define m where "m = min (length R) (length Ad)"
  have nm: "\<forall>x \<in> set R. left_only x \<and> \<not> merged x" "\<forall>x \<in> set Ad. right_only x \<and> \<not> merged x"
    using Merge(3,4) Merge.prems by auto
  have eq: "detected D en (R @ Ad @ T2) =
          map2 (merge_left D en) (take m R) (take m Ad) @ drop m R @ drop m Ad @ detected D en T2"
    using mark_merge_eq [OF Merge(1-7)] filter_merge_runs [OF nm]
    by (simp add: detected_def m_def)
  have len: "length (take m R) = length (take m Ad)" by (simp add: m_def)
  have tk: "\<forall>x \<in> set (take m R). left_only x" "\<forall>y \<in> set (take m Ad). right_only y"
    using Merge(3,4) by (auto dest: in_set_takeD)
  note z = project_map2_merge_left [OF len tk assms]
  have dl: "project_left (drop m Ad) = []" "project_left Ad = []"
    using Merge(4) by (auto intro!: project_left_right_only dest: in_set_dropD)
  have dr: "project_right (drop m R) = []" "project_right R = []"
    using Merge(3) by (auto intro!: project_right_left_only dest: in_set_dropD)
  have lR: "map f (project_left (take m R)) @ map f (project_left (drop m R)) = map f (project_left R)"
    by (metis append_take_drop_id map_append project_left_simps(3))
  have rA: "map g (project_right (take m Ad)) @ map g (project_right (drop m Ad)) = map g (project_right Ad)"
    by (metis append_take_drop_id map_append project_right_simps(3))
  have ih: "map f (project_left (detected D en T2)) = map f (project_left T2)"
           "map g (project_right (detected D en T2)) = map g (project_right T2)"
    using Merge by simp_all
  show ?case
    unfolding eq using z dl dr lR rA ih by simp
qed

section \<open>What \<open>compare\<close> returns\<close>

definition char_diff_enabled :: "engine \<Rightarrow> string \<Rightarrow> string \<Rightarrow> bool" where
  "char_diff_enabled this leftText rightText =
     (length (splitLines (Some leftText)) + length (splitLines (Some rightText))
        < maxLinesForCharDiff this)"

lemma compare_result:
  "compare D this leftText rightText =
     Some (this\<lparr>leftLines := splitLines (Some leftText),
                rightLines := splitLines (Some rightText),
                enableCharDiff := char_diff_enabled this leftText rightText,
                diffResult := Some ((pair_lines (diffLines D leftText rightText))
                  \<lparr>pairs := detected D (char_diff_enabled this leftText rightText)
                              (pairs (pair_lines (diffLines D leftText rightText)))\<rparr>),
                diffBlocks := groupDiffBlocks ((pair_lines (diffLines D leftText rightText))
                  \<lparr>pairs := detected D (char_diff_enabled this leftText rightText)
                              (pairs (pair_lines (diffLines D leftText rightText)))\<rparr>)\<rparr>)"
  by (simp add: compare_def processDiff_def detectModifications_mark detected_def
      char_diff_enabled_def Let_def)

lemma compare_pairs:
  "\<exists>e res. compare D this leftText rightText = Some e \<and> getResult e = Some res
     \<and> getDiffBlocks e = groupDiffBlocks res
     \<and> leftLines e = splitLines (Some leftText) \<and> rightLines e = splitLines (Some rightText)
     \<and> res_left res = res_left (pair_lines (diffLines D leftText rightText))
     \<and> res_right res = res_right (pair_lines (diffLines D leftText rightText))
     \<and> pairs res = detected D (char_diff_enabled this leftText rightText)
                      (pairs (pair_lines (diffLines D leftText rightText)))"
  by (simp add: compare_result getResult_def getDiffBlocks_def)

lemma final_pairs_compare:
  "list_all (final_pair en) (detected D en (pairs (pair_lines diff)))"
  by (rule detected_final) (rule pair_lines_facts)

lemma fresh_not_merged: "list_all fresh_pair ps \<Longrightarrow> \<forall>x \<in> set ps. \<not> merged x"
  by (auto simp: list_all_iff fresh_pair_def)

lemma lineNum_mod [simp]:
  "lineNum (mod_left D en l r) = lineNum l" "lineNum (mod_right D en l r) = lineNum r"
  "content (mod_left D en l r) = content l" "content (mod_right D en l r) = content r"
  by (simp_all add: mod_left_def mod_right_def)

lemma detected_lineNum:
  "map lineNum (project_left (detected D en (pairs (pair_lines diff)))) =
     map lineNum (res_left (pair_lines diff))"
  "map lineNum (project_right (detected D en (pairs (pair_lines diff)))) =
     map lineNum (res_right (pair_lines diff))"
  using detected_project [of lineNum D en lineNum "pairs (pair_lines diff)"]
    fresh_not_merged [OF pair_lines_facts(5), of diff] pair_lines_facts(3,4) [of diff]
  by simp_all

lemma detected_content:
  "map content (project_left (detected D en (pairs (pair_lines diff)))) = left_part_lines diff"
  "map content (project_right (detected D en (pairs (pair_lines diff)))) = right_part_lines diff"
  using detected_project [of content D en content "pairs (pair_lines diff)"]
    fresh_not_merged [OF pair_lines_facts(5), of diff] pair_lines_facts(3,4) [of diff]
    pair_lines_content [of diff]
  by simp_all

text \<open>Change objects and a stand-in for the library, for concrete runs.\<close>

definition common_part :: "string \<Rightarrow> part" where
  "common_part v = \<lparr>part_value = v, part_added = False, part_removed = False\<rparr>"

definition added_part :: "string \<Rightarrow> part" where
  "added_part v = \<lparr>part_value = v, part_added = True, part_removed = False\<rparr>"

definition removed_part :: "string \<Rightarrow> part" where
  "removed_part v = \<lparr>part_value = v, part_added = False, part_removed = True\<rparr>"

definition fixed_diff :: "part list \<Rightarrow> difflib" where
  "fixed_diff ds =
     \<lparr>diffLines = (\<lambda>l r. ds), diffChars = (\<lambda>l r. [removed_part l, added_part r])\<rparr>"

text \<open>
  The texts \<open>a LF b LF c\<close> and \<open>a LF x LF c\<close>, and the change objects of their line
  diff when the line feeds are tokens of their own (\<open>newlineIsToken: true\<close>): the common
  \<open>a LF\<close>, the removed \<open>b\<close>, the added \<open>x\<close>, the common \<open>LF c\<close>.
\<close>

definition abc :: string where
  "abc = [CHR ''a'', LF, CHR ''b'', LF, CHR ''c'']"

definition axc :: string where
  "axc = [CHR ''a'', LF, CHR ''x'', LF, CHR ''c'']"

definition abc_axc_diff :: "part list" where
  "abc_axc_diff =
     [common_part [CHR ''a'', LF], removed_part ''b'', added_part ''x'',
      common_part [LF, CHR ''c'']]"

definition abc_axc_pairs :: "pair list" where
  "abc_axc_pairs =
     [common_pair (mk_line 1 ''a'' Unchanged) (mk_line 1 ''a'' Unchanged),
      \<lparr>left = Some \<lparr>lineNum = 2, content = ''b'', type = Modified,
                     charDiff = Some [\<lparr>span_text = ''b'', span_type = Removed\<rparr>]\<rparr>,
       right = Some \<lparr>lineNum = 2, content = ''x'', type = Modified,
                      charDiff = Some [\<lparr>span_text = ''x'', span_type = Added\<rparr>]\<rparr>,
       merged = False\<rparr>,
      common_pair (mk_line 3 [] Unchanged) (mk_line 3 [] Unchanged),
      common_pair (mk_line 4 ''c'' Unchanged) (mk_line 4 ''c'' Unchanged)]"

lemma abc_axc_result:
  "map_option pairs (Option.bind (compare (fixed_diff abc_axc_diff) constructor abc axc) getResult)
     = Some abc_axc_pairs"
  by code_simp

lemma abc_axc_result_pairs:
  assumes "compare (fixed_diff abc_axc_diff) constructor abc axc = Some e" "getResult e = Some res"
  shows "pairs res = abc_axc_pairs"
  using abc_axc_result assms by simp

lemma final_pair_char_diff:
  assumes "final_pair en p"
  shows "(\<forall>l. left p = Some l \<longrightarrow> (charDiff l \<noteq> None) = (en \<and> type l = Modified))
       \<and> (\<forall>r. right p = Some r \<longrightarrow> (charDiff r \<noteq> None) = (en \<and> type r = Modified))
       \<and> (\<forall>l. left p = Some l \<and> type l = Modified \<longrightarrow>
              (\<exists>r. right p = Some r \<and> type r = Modified))"
  using assms by (cases "left p"; cases "right p") (auto simp: final_pair_def)

lemma split_from_replicate_LF: "split_from cur (replicate n LF) = cur # replicate n []"
proof (induction n arbitrary: cur)
  case 0
  then show ?case by simp
next
  case (Suc n)
  show ?case
  proof (cases n)
    case 0
    then show ?thesis by simp
  next
    case (Suc k)
    have "split_from cur (LF # LF # replicate k LF) = cur # split_from [] (LF # replicate k LF)"
      by simp
    also have "split_from [] (LF # replicate k LF) = [] # replicate n []"
      using Suc.IH [of "[]"] Suc by simp
    finally show ?thesis using Suc by simp
  qed
qed

lemma length_splitLines_replicate_LF:
  "0 < n \<Longrightarrow> length (splitLines (Some (replicate n LF))) = Suc n"
  by (simp add: splitLines_def split_newline_def split_from_replicate_LF)

section \<open>Identical texts\<close>

lemma mark_no_removed: "\<forall>p \<in> set ps. \<not> removed_start p \<Longrightarrow> mark D en ps = ps"
  by (induction ps) (simp_all add: mark_Nil mark_not_removed)

definition two_sided :: "pair \<Rightarrow> bool" where
  "two_sided p = (left p \<noteq> None \<and> right p \<noteq> None)"

lemma two_sided_emit_line:
  assumes "\<not> part_added p" "\<not> part_removed p" "list_all two_sided (pairs (result st))"
  shows "list_all two_sided (pairs (result (emit_line p st ln)))"
  using assms by (simp add: emit_line_def Let_def two_sided_def)

lemma two_sided_emit_part:
  assumes "\<not> part_added p" "\<not> part_removed p" "list_all two_sided (pairs (result st))"
  shows "list_all two_sided (pairs (result (emit_part st p)))"
  unfolding emit_part_def
proof (rule foldl_invariant [where P = "\<lambda>st. list_all two_sided (pairs (result st))"])
  show "list_all two_sided (pairs (result st))" by (rule assms(3))
next
  fix s :: pairing and x
  assume "list_all two_sided (pairs (result s))"
  then show "list_all two_sided (pairs (result (emit_line p s x)))"
    by (rule two_sided_emit_line [OF assms(1,2)])
qed

lemma two_sided_pair_lines:
  assumes "\<forall>p \<in> set diff. \<not> part_added p \<and> \<not> part_removed p"
  shows "list_all two_sided (pairs (pair_lines diff))"
  unfolding pair_lines_def
  by (rule foldl_invariant [where P = "\<lambda>st. list_all two_sided (pairs (result st))"])
     (use assms in \<open>auto intro: two_sided_emit_part simp: pairing_init_def\<close>)

lemma part_lines_Nil: "part_lines [] = []"
  by (simp add: part_lines_def split_newline_def)

lemma pair_lines_no_lines:
  assumes "\<forall>p \<in> set diff. part_value p = []"
  shows "pairs (pair_lines diff) = []"
proof -
  have "foldl emit_part pairing_init diff = pairing_init"
    by (rule foldl_invariant [where P = "\<lambda>st. st = pairing_init"])
       (use assms in \<open>auto simp: emit_part_def part_lines_Nil\<close>)
  then show ?thesis by (simp add: pair_lines_def pairing_init_def)
qed

lemma group_step_not_diff:
  "\<not> isDiff (snd ip) \<Longrightarrow> currentBlock g = None \<Longrightarrow> group_step g ip = g"
  by (simp add: group_step_def Let_def)

lemma groupDiffBlocks_no_diff:
  assumes "\<forall>p \<in> set (pairs r). \<not> isDiff p"
  shows "groupDiffBlocks r = []"
proof -
  let ?g0 = "\<lparr>blocks = [], currentBlock = None\<rparr>"
  have "foldl group_step ?g0 (enumerate 0 (pairs r)) = ?g0"
    by (rule foldl_invariant [where P = "\<lambda>g. g = ?g0"])
       (use assms in \<open>auto simp: group_step_not_diff in_set_enumerate_eq\<close>)
  then show ?thesis by (simp add: groupDiffBlocks_def)
qed

lemma two_sided_fresh:
  assumes "fresh_pair p" "two_sided p"
  shows "\<exists>l r. left p = Some l \<and> right p = Some r \<and> type l = Unchanged \<and> type r = Unchanged
           \<and> content l = content r"
  using assms by (auto simp: fresh_pair_def two_sided_def)

lemma two_sided_plain:
  assumes "fresh_pair p" "two_sided p"
  shows "\<not> removed_start p" "\<not> isDiff p" "\<not> merged p"
  using assms by (auto simp: fresh_pair_def two_sided_def removed_start_def isDiff_def)

section \<open>Statistics\<close>

text \<open>The four kinds of pair that the statistics count, in the words of the specification.\<close>

definition left_modified :: "pair \<Rightarrow> bool" where
  "left_modified p = (case left p of None \<Rightarrow> False | Some l \<Rightarrow> type l = Modified)"

definition fully_unchanged :: "pair \<Rightarrow> bool" where
  "fully_unchanged p =
     (case (left p, right p) of
        (Some l, Some r) \<Rightarrow> type l = Unchanged \<and> type r = Unchanged
      | _ \<Rightarrow> False)"

text \<open>The tests that \<open>getStats\<close> itself makes.\<close>

definition counted_modified :: "pair \<Rightarrow> bool" where
  "counted_modified p =
     (case (left p, right p) of (Some l, Some r) \<Rightarrow> type l = Modified | _ \<Rightarrow> False)"

definition counted_unchanged :: "pair \<Rightarrow> bool" where
  "counted_unchanged p =
     (case (left p, right p) of (Some l, Some r) \<Rightarrow> type l \<noteq> Modified | _ \<Rightarrow> False)"

lemma count_pair_step:
  "count_pair c p =
     \<lparr>c_added = c_added c + (if right_only p then 1 else 0),
      c_removed = c_removed c + (if left_only p then 1 else 0),
      c_modified = c_modified c + (if counted_modified p then 1 else 0),
      c_unchanged = c_unchanged c + (if counted_unchanged p then 1 else 0)\<rparr>"
  by (cases "left p"; cases "right p")
     (simp_all add: count_pair_def right_only_def left_only_def counted_modified_def
        counted_unchanged_def)

lemma count_pair_fold:
  "foldl count_pair c ps =
     \<lparr>c_added = c_added c + length (filter right_only ps),
      c_removed = c_removed c + length (filter left_only ps),
      c_modified = c_modified c + length (filter counted_modified ps),
      c_unchanged = c_unchanged c + length (filter counted_unchanged ps)\<rparr>"
proof (induction ps arbitrary: c)
  case Nil
  then show ?case by simp
next
  case (Cons p ps)
  show ?case
    unfolding foldl_Cons Cons by (simp add: count_pair_step)
qed

lemma final_pair_counted:
  assumes "final_pair en p"
  shows "counted_modified p = left_modified p" "counted_unchanged p = fully_unchanged p"
  using assms
  by (cases "left p"; cases "right p";
      auto simp: final_pair_def counted_modified_def counted_unchanged_def left_modified_def
        fully_unchanged_def)+

lemma filter_counted:
  assumes "list_all (final_pair en) ps"
  shows "filter counted_modified ps = filter left_modified ps"
        "filter counted_unchanged ps = filter fully_unchanged ps"
  using assms final_pair_counted
  by (auto intro!: filter_cong simp: list_all_iff)

section \<open>Blocks\<close>

text \<open>
  A block lies on a run of diff pairs of \<open>ps\<close> that cannot be extended to the left:
  its indices are in range, its pairs are the pairs between them, all of them are diff
  pairs, and the pair before it, if any, is not.
\<close>

definition block_run :: "pair list \<Rightarrow> block \<Rightarrow> bool" where
  "block_run ps b =
     (startIndex b \<le> endIndex b \<and> endIndex b < length ps
      \<and> block_pairs b = take (endIndex b + 1 - startIndex b) (drop (startIndex b) ps)
      \<and> (\<forall>k. startIndex b \<le> k \<and> k \<le> endIndex b \<longrightarrow> isDiff (ps ! k))
      \<and> (startIndex b = 0 \<or> \<not> isDiff (ps ! (startIndex b - 1))))"

definition block_before :: "block \<Rightarrow> block \<Rightarrow> bool" where
  "block_before b c = (endIndex b + 1 < startIndex c)"

text \<open>The state of the \<open>forEach\<close> after the first \<open>n\<close> pairs.\<close>

definition grouped :: "pair list \<Rightarrow> nat \<Rightarrow> grouping" where
  "grouped ps n = foldl group_step \<lparr>blocks = [], currentBlock = None\<rparr> (enumerate 0 (take n ps))"

definition grouping_inv :: "pair list \<Rightarrow> nat \<Rightarrow> grouping \<Rightarrow> bool" where
  "grouping_inv ps n g =
     ((\<forall>b \<in> set (blocks g).
         block_run ps b \<and> endIndex b + 1 < n \<and> \<not> isDiff (ps ! (endIndex b + 1)))
      \<and> sorted_wrt block_before (blocks g)
      \<and> (case currentBlock g of
            None \<Rightarrow> n = 0 \<or> \<not> isDiff (ps ! (n - 1))
          | Some b \<Rightarrow> block_run ps b \<and> endIndex b + 1 = n
                       \<and> (\<forall>c \<in> set (blocks g). block_before c b))
      \<and> (\<forall>k < n. isDiff (ps ! k) \<longrightarrow>
            (\<exists>b \<in> set (blocks g). startIndex b \<le> k \<and> k \<le> endIndex b)
            \<or> (\<exists>b. currentBlock g = Some b \<and> startIndex b \<le> k)))"

lemma grouped_0: "grouped ps 0 = \<lparr>blocks = [], currentBlock = None\<rparr>"
  by (simp add: grouped_def)

lemma grouped_Suc:
  assumes "n < length ps"
  shows "grouped ps (Suc n) = group_step (grouped ps n) (n, ps ! n)"
proof -
  have "enumerate 0 (take (Suc n) ps) = enumerate 0 (take n ps) @ [(n, ps ! n)]"
    using assms by (simp add: take_Suc_conv_app_nth enumerate_append_eq)
  then show ?thesis by (simp add: grouped_def)
qed

lemma grouping_inv_0: "grouping_inv ps 0 \<lparr>blocks = [], currentBlock = None\<rparr>"
  by (simp add: grouping_inv_def)

lemma block_run_new:
  assumes "n < length ps" "isDiff (ps ! n)" "n = 0 \<or> \<not> isDiff (ps ! (n - 1))"
  shows "block_run ps \<lparr>startIndex = n, endIndex = n, block_pairs = [ps ! n]\<rparr>"
  using assms by (auto simp: block_run_def take_Suc_conv_app_nth [of 0] hd_drop_conv_nth
      take_Suc hd_conv_nth)

lemma block_run_extend:
  assumes "n < length ps" "isDiff (ps ! n)" "block_run ps b" "endIndex b + 1 = n"
  shows "block_run ps (b\<lparr>endIndex := n, block_pairs := block_pairs b @ [ps ! n]\<rparr>)"
proof -
  have s: "startIndex b \<le> endIndex b" "startIndex b < n" using assms(3,4) by (auto simp: block_run_def)
  have bp: "block_pairs b = take (n - startIndex b) (drop (startIndex b) ps)"
    using assms(3,4) by (auto simp: block_run_def)
  have "take (Suc (n - startIndex b)) (drop (startIndex b) ps) =
          take (n - startIndex b) (drop (startIndex b) ps) @ [drop (startIndex b) ps ! (n - startIndex b)]"
    using assms(1) s by (intro take_Suc_conv_app_nth) simp
  moreover have "drop (startIndex b) ps ! (n - startIndex b) = ps ! n"
    using assms(1) s by simp
  ultimately have "block_pairs b @ [ps ! n] = take (n + 1 - startIndex b) (drop (startIndex b) ps)"
    using bp s by (simp add: Suc_diff_le)
  moreover have "\<forall>k. startIndex b \<le> k \<and> k \<le> n \<longrightarrow> isDiff (ps ! k)"
  proof (intro allI impI)
    fix k assume "startIndex b \<le> k \<and> k \<le> n"
    then consider "k \<le> endIndex b" "startIndex b \<le> k" | "k = n" using assms(4) by linarith
    then show "isDiff (ps ! k)" using assms(2,3) by cases (auto simp: block_run_def)
  qed
  ultimately show ?thesis using assms(1,3) s by (simp add: block_run_def)
qed

lemma grouping_inv_step:
  assumes "n < length ps" "grouping_inv ps n g"
  shows "grouping_inv ps (Suc n) (group_step g (n, ps ! n))"
proof -
  from assms(2) have
    cl: "\<forall>b \<in> set (blocks g). block_run ps b \<and> endIndex b + 1 < n \<and> \<not> isDiff (ps ! (endIndex b + 1))" and
    so: "sorted_wrt block_before (blocks g)" and
    cu: "case currentBlock g of
            None \<Rightarrow> n = 0 \<or> \<not> isDiff (ps ! (n - 1))
          | Some b \<Rightarrow> block_run ps b \<and> endIndex b + 1 = n
                       \<and> (\<forall>c \<in> set (blocks g). block_before c b)" and
    co: "\<forall>k < n. isDiff (ps ! k) \<longrightarrow>
            (\<exists>b \<in> set (blocks g). startIndex b \<le> k \<and> k \<le> endIndex b)
            \<or> (\<exists>b. currentBlock g = Some b \<and> startIndex b \<le> k)"
    by (simp_all add: grouping_inv_def)
  have cl': "\<forall>b \<in> set (blocks g). block_run ps b \<and> endIndex b + 1 < Suc n \<and> \<not> isDiff (ps ! (endIndex b + 1))"
    using cl by auto
  show ?thesis
  proof (cases "isDiff (ps ! n)")
    case True
    show ?thesis
    proof (cases "currentBlock g")
      case None
      let ?b = "\<lparr>startIndex = n, endIndex = n, block_pairs = [ps ! n]\<rparr>"
      have gs: "group_step g (n, ps ! n) = g\<lparr>currentBlock := Some ?b\<rparr>"
        using True None by (simp add: group_step_def Let_def)
      have run: "block_run ps ?b"
        using assms(1) True cu None by (intro block_run_new) auto
      have bef: "\<forall>c \<in> set (blocks g). block_before c ?b"
        using cl by (auto simp: block_before_def)
      have cov: "\<forall>k < Suc n. isDiff (ps ! k) \<longrightarrow>
            (\<exists>b \<in> set (blocks g). startIndex b \<le> k \<and> k \<le> endIndex b) \<or> n \<le> k"
        using co None by (auto simp: less_Suc_eq)
      show ?thesis
        unfolding gs using cl' so run bef cov by (simp add: grouping_inv_def)
    next
      case (Some b)
      let ?b = "b\<lparr>endIndex := n, block_pairs := block_pairs b @ [ps ! n]\<rparr>"
      have gs: "group_step g (n, ps ! n) = g\<lparr>currentBlock := Some ?b\<rparr>"
        using True Some by (simp add: group_step_def Let_def)
      have old: "block_run ps b" "endIndex b + 1 = n" "\<forall>c \<in> set (blocks g). block_before c b"
        using cu Some by auto
      have run: "block_run ps ?b"
        using assms(1) True old(1,2) by (rule block_run_extend)
      have bef: "\<forall>c \<in> set (blocks g). block_before c ?b"
        using old(3) by (simp add: block_before_def)
      have sn: "startIndex b \<le> n" using old(1,2) by (auto simp: block_run_def)
      have cov: "\<forall>k < Suc n. isDiff (ps ! k) \<longrightarrow>
            (\<exists>b \<in> set (blocks g). startIndex b \<le> k \<and> k \<le> endIndex b) \<or> startIndex b \<le> k"
        using co Some sn by (auto simp: less_Suc_eq)
      show ?thesis
        unfolding gs using cl' so run bef cov by (simp add: grouping_inv_def)
    qed
  next
    case False
    show ?thesis
    proof (cases "currentBlock g")
      case None
      have gs: "group_step g (n, ps ! n) = g"
        using False None by (simp add: group_step_def Let_def)
      have cov: "\<forall>k < Suc n. isDiff (ps ! k) \<longrightarrow>
            (\<exists>b \<in> set (blocks g). startIndex b \<le> k \<and> k \<le> endIndex b)"
        using co None False by (auto simp: less_Suc_eq)
      show ?thesis
        unfolding gs using cl' so cov None False by (simp add: grouping_inv_def)
    next
      case (Some b)
      have gs: "group_step g (n, ps ! n) = g\<lparr>blocks := blocks g @ [b], currentBlock := None\<rparr>"
        using False Some by (simp add: group_step_def Let_def)
      have old: "block_run ps b" "endIndex b + 1 = n" "\<forall>c \<in> set (blocks g). block_before c b"
        using cu Some by auto
      have clb: "block_run ps b \<and> endIndex b + 1 < Suc n \<and> \<not> isDiff (ps ! (endIndex b + 1))"
        using old False by auto
      have so': "sorted_wrt block_before (blocks g @ [b])"
        using so old(3) by (simp add: sorted_wrt_append)
      have cov: "\<forall>k < Suc n. isDiff (ps ! k) \<longrightarrow>
            (\<exists>c \<in> set (blocks g @ [b]). startIndex c \<le> k \<and> k \<le> endIndex c)"
      proof (intro allI impI)
        fix k assume k: "k < Suc n" "isDiff (ps ! k)"
        with False have kn: "k < n" by (cases "k = n") auto
        with co k Some consider "\<exists>c \<in> set (blocks g). startIndex c \<le> k \<and> k \<le> endIndex c"
          | "startIndex b \<le> k" by auto
        then show "\<exists>c \<in> set (blocks g @ [b]). startIndex c \<le> k \<and> k \<le> endIndex c"
        proof cases
          case 1
          then show ?thesis by auto
        next
          case 2
          with kn old(2) have "startIndex b \<le> k \<and> k \<le> endIndex b" by auto
          then show ?thesis by auto
        qed
      qed
      show ?thesis
        unfolding gs using cl' clb so' cov False by (simp add: grouping_inv_def)
    qed
  qed
qed

lemma grouping_inv_grouped: "n \<le> length ps \<Longrightarrow> grouping_inv ps n (grouped ps n)"
proof (induction n)
  case 0
  then show ?case by (simp add: grouped_0 grouping_inv_0)
next
  case (Suc n)
  then show ?case by (simp add: grouped_Suc grouping_inv_step)
qed

lemma groupDiffBlocks_grouped:
  "groupDiffBlocks r =
     (case currentBlock (grouped (pairs r) (length (pairs r))) of
        None \<Rightarrow> blocks (grouped (pairs r) (length (pairs r)))
      | Some b \<Rightarrow> blocks (grouped (pairs r) (length (pairs r))) @ [b])"
proof -
  have eq: "foldl group_step \<lparr>blocks = [], currentBlock = None\<rparr> (enumerate 0 (pairs r)) =
          grouped (pairs r) (length (pairs r))"
    by (simp add: grouped_def)
  show ?thesis unfolding groupDiffBlocks_def Let_def eq by (rule refl)
qed

lemma groupDiffBlocks_runs:
  "(\<forall>b \<in> set (groupDiffBlocks r).
       block_run (pairs r) b
       \<and> (endIndex b + 1 = length (pairs r) \<or> \<not> isDiff (pairs r ! (endIndex b + 1))))
   \<and> sorted_wrt block_before (groupDiffBlocks r)
   \<and> (\<forall>k < length (pairs r). isDiff (pairs r ! k) \<longrightarrow>
         (\<exists>b \<in> set (groupDiffBlocks r). startIndex b \<le> k \<and> k \<le> endIndex b))"
proof -
  let ?ps = "pairs r"
  let ?n = "length ?ps"
  let ?g = "grouped ?ps ?n"
  have "grouping_inv ?ps ?n ?g" by (rule grouping_inv_grouped) simp
  then have
    cl: "\<forall>b \<in> set (blocks ?g). block_run ?ps b \<and> endIndex b + 1 < ?n \<and> \<not> isDiff (?ps ! (endIndex b + 1))" and
    so: "sorted_wrt block_before (blocks ?g)" and
    cu: "case currentBlock ?g of
            None \<Rightarrow> ?n = 0 \<or> \<not> isDiff (?ps ! (?n - 1))
          | Some b \<Rightarrow> block_run ?ps b \<and> endIndex b + 1 = ?n
                       \<and> (\<forall>c \<in> set (blocks ?g). block_before c b)" and
    co: "\<forall>k < ?n. isDiff (?ps ! k) \<longrightarrow>
            (\<exists>b \<in> set (blocks ?g). startIndex b \<le> k \<and> k \<le> endIndex b)
            \<or> (\<exists>b. currentBlock ?g = Some b \<and> startIndex b \<le> k)"
    by (simp_all add: grouping_inv_def)
  show ?thesis
  proof (cases "currentBlock ?g")
    case None
    then have eq: "groupDiffBlocks r = blocks ?g" by (simp add: groupDiffBlocks_grouped)
    show ?thesis unfolding eq using cl so co None by auto
  next
    case (Some b)
    then have eq: "groupDiffBlocks r = blocks ?g @ [b]" by (simp add: groupDiffBlocks_grouped)
    have old: "block_run ?ps b" "endIndex b + 1 = ?n" "\<forall>c \<in> set (blocks ?g). block_before c b"
      using cu Some by auto
    have a: "\<forall>c \<in> set (blocks ?g @ [b]).
       block_run ?ps c \<and> (endIndex c + 1 = ?n \<or> \<not> isDiff (?ps ! (endIndex c + 1)))"
      using cl old by auto
    have b: "sorted_wrt block_before (blocks ?g @ [b])"
      using so old(3) by (simp add: sorted_wrt_append)
    have c: "\<forall>k < ?n. isDiff (?ps ! k) \<longrightarrow>
         (\<exists>c \<in> set (blocks ?g @ [b]). startIndex c \<le> k \<and> k \<le> endIndex c)"
    proof (intro allI impI)
      fix k assume k: "k < ?n" "isDiff (?ps ! k)"
      with co Some consider "\<exists>c \<in> set (blocks ?g). startIndex c \<le> k \<and> k \<le> endIndex c"
        | "startIndex b \<le> k" by auto
      then show "\<exists>c \<in> set (blocks ?g @ [b]). startIndex c \<le> k \<and> k \<le> endIndex c"
      proof cases
        case 1
        then show ?thesis by auto
      next
        case 2
        with k old(2) have "startIndex b \<le> k \<and> k \<le> endIndex b" by auto
        then show ?thesis by auto
      qed
    qed
    show ?thesis unfolding eq using a b c by blast
  qed
qed

text \<open>
  A diff pair in the words of the specification: a present side of a kind other than
  \<open>Unchanged\<close>, or exactly one side present.
\<close>

definition diff_pair :: "pair \<Rightarrow> bool" where
  "diff_pair p =
     ((case left p of None \<Rightarrow> False | Some l \<Rightarrow> type l \<noteq> Unchanged)
      \<or> (case right p of None \<Rightarrow> False | Some r \<Rightarrow> type r \<noteq> Unchanged)
      \<or> (left p = None) \<noteq> (right p = None))"

lemma final_pair_isDiff:
  assumes "final_pair en p"
  shows "isDiff p = diff_pair p" "\<not> isDiff p \<Longrightarrow> fully_unchanged p"
  using assms
  by (cases "left p"; cases "right p";
      auto simp: final_pair_def isDiff_def diff_pair_def fully_unchanged_def)+

lemma block_pairs_diff:
  assumes "block_run ps b" "p \<in> set (block_pairs b)"
  shows "isDiff p \<and> p \<in> set ps"
proof -
  from assms(1) have
    bp: "block_pairs b = take (endIndex b + 1 - startIndex b) (drop (startIndex b) ps)" and
    se: "startIndex b \<le> endIndex b" "endIndex b < length ps" and
    d: "\<And>k. startIndex b \<le> k \<Longrightarrow> k \<le> endIndex b \<Longrightarrow> isDiff (ps ! k)"
    by (auto simp: block_run_def)
  from assms(2) obtain i where
    i: "i < length (block_pairs b)" "block_pairs b ! i = p"
    by (auto simp: in_set_conv_nth)
  have li: "i < endIndex b + 1 - startIndex b" using i(1) bp by simp
  have "p = ps ! (startIndex b + i)"
    using i li se unfolding bp by simp
  moreover have "startIndex b + i \<le> endIndex b" using li by simp
  ultimately show ?thesis using d [of "startIndex b + i"] se by simp
qed

lemma split_from_not_Nil: "split_from cur s \<noteq> []"
  by (induction cur s rule: split_from.induct) auto

lemma last_split_from:
  "s \<noteq> [] \<Longrightarrow> last s = LF \<Longrightarrow> last (split_from cur s) = []"
  by (induction cur s rule: split_from.induct) (auto simp: split_from_not_Nil split: if_splits)

lemma splitLines_trailing_LF:
  "s \<noteq> [] \<Longrightarrow> last s = LF \<Longrightarrow> last (splitLines (Some s)) = []"
  by (simp add: splitLines_def split_newline_def last_split_from)

lemma part_lines_trailing_LF:
  "s \<noteq> [] \<Longrightarrow> last s = LF \<Longrightarrow> part_lines s = butlast (splitLines (Some s))"
  by (simp add: part_lines_def splitLines_def split_newline_def last_split_from)

lemma compare_projection_content:
  "\<exists>e res. compare D this leftText rightText = Some e \<and> getResult e = Some res
     \<and> map content (project_left (pairs res)) = left_part_lines (diffLines D leftText rightText)
     \<and> map content (project_right (pairs res)) = right_part_lines (diffLines D leftText rightText)"
proof -
  from compare_pairs [of D this leftText rightText] obtain e res where
    c: "compare D this leftText rightText = Some e" "getResult e = Some res" and
    p: "pairs res = detected D (char_diff_enabled this leftText rightText)
                      (pairs (pair_lines (diffLines D leftText rightText)))"
    by blast
  show ?thesis
    using c unfolding p [symmetric]
    by (intro exI [of _ e] exI [of _ res]) (simp add: p detected_content)
qed

text \<open>
  What \<open>getStats\<close> returns after \<open>compare\<close>, for every answer of the library: the four
  counts of pairs, the number of blocks, and the lengths of what \<open>splitLines\<close> returns.
\<close>

lemma getStats_after_compare:
  "\<exists>e res. compare D this leftText rightText = Some e \<and> getResult e = Some res
     \<and> getStats e =
         Some \<lparr>s_added = length (filter right_only (pairs res)),
               s_removed = length (filter left_only (pairs res)),
               s_modified = length (filter left_modified (pairs res)),
               s_unchanged = length (filter fully_unchanged (pairs res)),
               s_totalDiffs = length (getDiffBlocks e),
               s_leftLines = length (splitLines (Some leftText)),
               s_rightLines = length (splitLines (Some rightText))\<rparr>"
proof -
  let ?en = "char_diff_enabled this leftText rightText"
  from compare_pairs [of D this leftText rightText] obtain e res where
    c: "compare D this leftText rightText = Some e" "getResult e = Some res" and
    l: "leftLines e = splitLines (Some leftText)" "rightLines e = splitLines (Some rightText)" and
    p: "pairs res = detected D ?en (pairs (pair_lines (diffLines D leftText rightText)))"
    by blast
  have "list_all (final_pair ?en) (pairs res)"
    unfolding p by (rule final_pairs_compare)
  note f = filter_counted [OF this]
  have "getStats e =
         Some \<lparr>s_added = length (filter right_only (pairs res)),
               s_removed = length (filter left_only (pairs res)),
               s_modified = length (filter left_modified (pairs res)),
               s_unchanged = length (filter fully_unchanged (pairs res)),
               s_totalDiffs = length (getDiffBlocks e),
               s_leftLines = length (splitLines (Some leftText)),
               s_rightLines = length (splitLines (Some rightText))\<rparr>"
    using c(2) l f by (simp add: getStats_def getResult_def getDiffBlocks_def count_pair_fold)
  with c show ?thesis by blast
qed

section \<open>Character spans after \<open>compare\<close>\<close>

text \<open>
  On a pair of two modified lines, both lines carry the spans that \<open>computeCharDiff\<close>
  makes of their contents when character diffing is enabled, and none otherwise.
\<close>

definition span_pair :: "difflib \<Rightarrow> bool \<Rightarrow> pair \<Rightarrow> bool" where
  "span_pair D en p =
     (case (left p, right p) of
        (Some l, Some r) \<Rightarrow>
          type l \<noteq> Modified
          \<or> (charDiff l =
                (if en then Some (cd_left (computeCharDiff D (content l) (content r))) else None)
              \<and> charDiff r =
                (if en then Some (cd_right (computeCharDiff D (content l) (content r))) else None))
      | _ \<Rightarrow> True)"

lemma fresh_span: "fresh_pair p \<Longrightarrow> span_pair D en p"
  by (cases "left p"; cases "right p") (auto simp: fresh_pair_def span_pair_def)

lemma span_merge_left:
  assumes "fresh_pair p" "left_only p" "fresh_pair q" "right_only q"
  shows "span_pair D en (merge_left D en p q)"
  using assms
  by (auto simp: fresh_pair_def span_pair_def left_only_def right_only_def merge_left_def
      mod_left_def mod_right_def split: option.splits)

lemma detected_spans:
  "list_all fresh_pair ps \<Longrightarrow> list_all (span_pair D en) (detected D en ps)"
proof (induction ps rule: mark_runs_induct)
  case Nil
  then show ?case by (simp add: detected_def mark_Nil)
next
  case (Copy p ps)
  then show ?case by (auto simp: detected_def mark_not_removed fresh_span)
next
  case (Plain R T1)
  have "detected D en (R @ T1) = filter (\<lambda>p. \<not> merged p) R @ detected D en T1"
    using mark_plain_eq [OF Plain(1-4)] by (simp add: detected_def)
  moreover have "list_all (span_pair D en) (filter (\<lambda>p. \<not> merged p) R)"
    using Plain.prems by (auto simp: list_all_iff fresh_span)
  ultimately show ?case using Plain by simp
next
  case (Merge R Ad T2)
  define m where "m = min (length R) (length Ad)"
  have fr: "\<forall>x \<in> set R. fresh_pair x" "\<forall>x \<in> set Ad. fresh_pair x"
    using Merge.prems by (auto simp: list_all_iff)
  then have nm: "\<forall>x \<in> set R. left_only x \<and> \<not> merged x" "\<forall>x \<in> set Ad. right_only x \<and> \<not> merged x"
    using Merge(3,4) by (auto simp: fresh_pair_def)
  have eq: "detected D en (R @ Ad @ T2) =
          map2 (merge_left D en) (take m R) (take m Ad) @ drop m R @ drop m Ad @ detected D en T2"
    using mark_merge_eq [OF Merge(1-7)] filter_merge_runs [OF nm]
    by (simp add: detected_def m_def)
  have z: "\<And>p q. (p, q) \<in> set (zip (take m R) (take m Ad)) \<Longrightarrow>
             span_pair D en (merge_left D en p q)"
    using fr Merge(3,4)
    by (auto intro!: span_merge_left dest!: zip_take_mem)
  have "list_all (span_pair D en) (map2 (merge_left D en) (take m R) (take m Ad))"
    using z by (auto simp: list_all_iff)
  moreover have "list_all (span_pair D en) (drop m R)" "list_all (span_pair D en) (drop m Ad)"
    using fr by (auto simp: list_all_iff fresh_span dest: in_set_dropD)
  moreover have "list_all (span_pair D en) (detected D en T2)"
    using Merge by simp
  ultimately show ?case unfolding eq by simp
qed

text \<open>
  What \<open>compare\<close> leaves as character spans, for every answer of the library.  Whether
  character diffing is enabled is decided on the lengths of what \<open>splitLines\<close> returns.
\<close>

lemma char_diff_after_compare:
  "\<exists>e res. compare D this leftText rightText = Some e \<and> getResult e = Some res
     \<and> (\<forall>p \<in> set (pairs res).
           (\<forall>l. left p = Some l \<longrightarrow>
              (charDiff l \<noteq> None) =
                (char_diff_enabled this leftText rightText \<and> type l = Modified))
         \<and> (\<forall>r. right p = Some r \<longrightarrow>
              (charDiff r \<noteq> None) =
                (char_diff_enabled this leftText rightText \<and> type r = Modified))
         \<and> (\<forall>l. left p = Some l \<and> type l = Modified \<longrightarrow>
              (\<exists>r. right p = Some r \<and> type r = Modified
                 \<and> charDiff l =
                     (if char_diff_enabled this leftText rightText
                      then Some (cd_left (computeCharDiff D (content l) (content r))) else None)
                 \<and> charDiff r =
                     (if char_diff_enabled this leftText rightText
                      then Some (cd_right (computeCharDiff D (content l) (content r))) else None))))"
proof -
  let ?en = "char_diff_enabled this leftText rightText"
  let ?diff = "diffLines D leftText rightText"
  from compare_pairs [of D this leftText rightText] obtain e res where
    c: "compare D this leftText rightText = Some e" "getResult e = Some res" and
    p: "pairs res = detected D ?en (pairs (pair_lines ?diff))"
    by blast
  have fin: "list_all (final_pair ?en) (pairs res)"
    unfolding p by (rule final_pairs_compare)
  have spn: "list_all (span_pair D ?en) (pairs res)"
    unfolding p by (rule detected_spans) (rule pair_lines_facts)
  have one: "(\<forall>l. left q = Some l \<longrightarrow> (charDiff l \<noteq> None) = (?en \<and> type l = Modified))
         \<and> (\<forall>r. right q = Some r \<longrightarrow> (charDiff r \<noteq> None) = (?en \<and> type r = Modified))
         \<and> (\<forall>l. left q = Some l \<and> type l = Modified \<longrightarrow>
              (\<exists>r. right q = Some r \<and> type r = Modified
                 \<and> charDiff l =
                     (if ?en then Some (cd_left (computeCharDiff D (content l) (content r))) else None)
                 \<and> charDiff r =
                     (if ?en then Some (cd_right (computeCharDiff D (content l) (content r))) else None)))"
    if "q \<in> set (pairs res)" for q
  proof -
    from that fin spn have f: "final_pair ?en q" and s: "span_pair D ?en q"
      by (simp_all add: list_all_iff)
    from final_pair_char_diff [OF f] have
      a: "\<forall>l. left q = Some l \<longrightarrow> (charDiff l \<noteq> None) = (?en \<and> type l = Modified)" and
      b: "\<forall>r. right q = Some r \<longrightarrow> (charDiff r \<noteq> None) = (?en \<and> type r = Modified)" and
      m: "\<forall>l. left q = Some l \<and> type l = Modified \<longrightarrow>
              (\<exists>r. right q = Some r \<and> type r = Modified)"
      by blast+
    have "\<exists>r. right q = Some r \<and> type r = Modified
                 \<and> charDiff l =
                     (if ?en then Some (cd_left (computeCharDiff D (content l) (content r))) else None)
                 \<and> charDiff r =
                     (if ?en then Some (cd_right (computeCharDiff D (content l) (content r))) else None)"
      if "left q = Some l" "type l = Modified" for l
    proof -
      from m that obtain r where r: "right q = Some r" "type r = Modified" by blast
      with s that show ?thesis by (simp add: span_pair_def)
    qed
    with a b show ?thesis by blast
  qed
  show ?thesis
    apply (rule exI [of _ e])
    apply (rule exI [of _ res])
    using c one by blast
qed

section \<open>Texts that end in a line terminator\<close>

lemma split_from_plain_char:
  "c \<noteq> LF \<Longrightarrow> c \<noteq> CR \<Longrightarrow> split_from cur (c # s) = split_from (cur @ [c]) s"
  by (cases s) auto

lemma splitLines_char_replicate:
  assumes "c \<noteq> LF" "c \<noteq> CR"
  shows "splitLines (Some (c # replicate n LF)) = [c] # replicate n []"
  using assms
  by (simp add: splitLines_def split_newline_def split_from_plain_char split_from_replicate_LF)

lemma part_lines_char_replicate:
  assumes "c \<noteq> LF" "c \<noteq> CR" "0 < n"
  shows "part_lines (c # replicate n LF) = [c] # replicate (n - 1) []"
proof -
  have s: "split_newline (c # replicate n LF) = [c] # replicate n []"
    using assms(1,2)
    by (simp add: split_newline_def split_from_plain_char split_from_replicate_LF)
  obtain k where k: "n = Suc k" using assms(3) by (cases n) auto
  have "replicate (Suc k) ([] :: string) = replicate k [] @ [[]]"
    by (simp add: replicate_append_same)
  with s k have s': "split_newline (c # replicate n LF) = ([c] # replicate k []) @ [[]]"
    by simp
  show ?thesis
    unfolding part_lines_def Let_def s' using k by simp
qed

text \<open>Common change objects only append two-sided pairs.\<close>

lemma emit_lines_common:
  assumes "\<not> part_added p" "\<not> part_removed p"
  shows "\<exists>qs. pairs (result (foldl (emit_line p) st lns)) = pairs (result st) @ qs
           \<and> list_all two_sided qs"
proof (induction lns arbitrary: st)
  case Nil
  then show ?case by simp
next
  case (Cons ln lns)
  from Cons [of "emit_line p st ln"] obtain qs where
    q: "pairs (result (foldl (emit_line p) (emit_line p st ln) lns)) =
          pairs (result (emit_line p st ln)) @ qs" "list_all two_sided qs"
    by blast
  obtain q0 where q0: "pairs (result (emit_line p st ln)) = pairs (result st) @ [q0]" "two_sided q0"
    using assms by (simp add: emit_line_def Let_def two_sided_def)
  show ?case
    using q q0 by (intro exI [of _ "q0 # qs"]) simp
qed

lemma emit_parts_common:
  assumes "\<forall>p \<in> set ds. \<not> part_added p \<and> \<not> part_removed p"
  shows "\<exists>qs. pairs (result (foldl emit_part st ds)) = pairs (result st) @ qs
           \<and> list_all two_sided qs"
  using assms
proof (induction ds arbitrary: st)
  case Nil
  then show ?case by simp
next
  case (Cons d ds)
  from Cons.prems have d: "\<not> part_added d" "\<not> part_removed d" by simp_all
  from emit_lines_common [OF d, of st "part_lines (part_value d)"] obtain q1 where
    q1: "pairs (result (emit_part st d)) = pairs (result st) @ q1" "list_all two_sided q1"
    by (auto simp: emit_part_def)
  from Cons.IH [of "emit_part st d"] Cons.prems obtain q2 where
    q2: "pairs (result (foldl emit_part (emit_part st d) ds)) = pairs (result (emit_part st d)) @ q2"
        "list_all two_sided q2"
    by auto
  show ?case
    using q1 q2 by (intro exI [of _ "q1 @ q2"]) simp
qed

text \<open>
  The text \<open>b\<close> followed by 2499 line feeds, the text \<open>x\<close> followed by 2499 line feeds
  (2499 lines each), and the change objects of their line diff: the removed \<open>b\<close>, the
  added \<open>x\<close>, the 2499 common line feeds.
\<close>

definition b_lines :: string where
  "b_lines = CHR ''b'' # replicate 2499 LF"

definition x_lines :: string where
  "x_lines = CHR ''x'' # replicate 2499 LF"

definition b_x_diff :: "part list" where
  "b_x_diff = [removed_part ''b'', added_part ''x'', common_part (replicate 2499 LF)]"

lemma b_x_pairs:
  "\<exists>qs. pairs (pair_lines b_x_diff) =
          [removed_pair (mk_line 1 ''b'' Removed), added_pair (mk_line 1 ''x'' Added)] @ qs
        \<and> list_all two_sided qs"
proof -
  let ?st = "emit_part (emit_part pairing_init (removed_part ''b'')) (added_part ''x'')"
  have st: "pairs (result ?st) =
      [removed_pair (mk_line 1 ''b'' Removed), added_pair (mk_line 1 ''x'' Added)]"
    by (simp add: emit_part_def emit_line_def part_lines_def split_newline_def pairing_init_def
        removed_part_def added_part_def removed_pair_def added_pair_def mk_line_def LF_def CR_def
        Let_def)
  have "\<forall>p \<in> set [common_part (replicate 2499 LF)]. \<not> part_added p \<and> \<not> part_removed p"
    by (simp add: common_part_def)
  from emit_parts_common [OF this, of ?st] st
  show ?thesis by (simp add: pair_lines_def b_x_diff_def)
qed

lemma b_x_detected:
  "\<exists>qs. detected D en (pairs (pair_lines b_x_diff)) =
          modified_pair D en (mk_line 1 ''b'' Removed) (mk_line 1 ''x'' Added) # qs"
proof -
  from b_x_pairs obtain qs where
    q: "pairs (pair_lines b_x_diff) =
          [removed_pair (mk_line 1 ''b'' Removed), added_pair (mk_line 1 ''x'' Added)] @ qs"
       "list_all two_sided qs"
    by blast
  have T: "qs = [] \<or> \<not> right_only (hd qs)"
    using q(2) by (cases qs) (auto simp: two_sided_def right_only_def)
  have "filter (\<lambda>p. \<not> merged p)
          (mark D en (map removed_pair [mk_line 1 ''b'' Removed]
                      @ map added_pair [mk_line 1 ''x'' Added] @ qs)) =
        map2 (modified_pair D en) (take (min (length [mk_line 1 ''b'' Removed])
                                            (length [mk_line 1 ''x'' Added])) [mk_line 1 ''b'' Removed])
                                   (take (min (length [mk_line 1 ''b'' Removed])
                                            (length [mk_line 1 ''x'' Added])) [mk_line 1 ''x'' Added])
        @ map removed_pair (drop (min (length [mk_line 1 ''b'' Removed])
                                      (length [mk_line 1 ''x'' Added])) [mk_line 1 ''b'' Removed])
        @ map added_pair (drop (min (length [mk_line 1 ''b'' Removed])
                                    (length [mk_line 1 ''x'' Added])) [mk_line 1 ''x'' Added])
        @ filter (\<lambda>p. \<not> merged p) (mark D en qs)"
    by (rule mark_removed_added_run [OF _ _ _ _ T]) (simp_all add: mk_line_def)
  then show ?thesis
    unfolding q(1) detected_def by simp
qed

text \<open>The text \<open>a LF b LF\<close>: two lines, the second one terminated.\<close>

definition ab_terminated :: string where
  "ab_terminated = [CHR ''a'', LF, CHR ''b'', LF]"

section \<open>Claims\<close>

subsection \<open>C1: the line splitter\<close>

text \<open>
  C1.  The claim: \<open>splitLines\<close> splits on CRLF or LF, keeps empty interior lines, and
  gives no empty trailing element when the text ends in a line terminator, so that
  \<open>a LF b LF\<close> yields exactly the two lines \<open>a\<close> and \<open>b\<close>.  The source returns the
  result of \<open>split\<close> as it is: on \<open>a LF b LF\<close> it yields three elements, the last one
  empty, while \<open>part_lines\<close> (the same split inside \<open>processDiff\<close>) pops that element.
  The other three examples of the claim hold: \<open>a LF b\<close> gives two lines, the empty and
  the absent text give none.
\<close>

theorem splitLines_trailing_terminator:
  "splitLines (Some [CHR ''a'', LF, CHR ''b'', LF]) = [''a'', ''b'', []]
   \<and> part_lines [CHR ''a'', LF, CHR ''b'', LF] = [''a'', ''b'']
   \<and> splitLines (Some [CHR ''a'', LF, CHR ''b'']) = [''a'', ''b'']
   \<and> splitLines (Some []) = []
   \<and> splitLines None = []"
  by (simp add: splitLines_def part_lines_def split_newline_def LF_def CR_def)

subsection \<open>C2: merging a removed run with the added run behind it\<close>

text \<open>
  C2.  Let a pair sequence contain a maximal run of removed-only pairs with the lines
  \<open>ls\<close> (the pair before it, if any, is not left-only).  If the run is directly
  followed by a maximal run of added-only pairs with the lines \<open>rs\<close>, then
  \<open>detectModifications\<close> puts in their place exactly \<open>min (length ls) (length rs)\<close>
  pairs, the i-th of them holding the i-th removed line on the left and the i-th added
  line on the right, both of kind \<open>Modified\<close>; the excess lines of the longer run follow
  as standalone pairs of their original kind.  If the removed run is followed by nothing
  or by a pair with both sides present, it is left as it is.  The pairs before and behind
  are processed on their own.
\<close>

theorem detectModifications_runs:
  assumes "ls \<noteq> []" and "\<forall>l \<in> set ls. type l = Removed"
    and "pre = [] \<or> \<not> left_only (last pre)"
  shows "\<exists>out_pre out_post.
      detectModifications D this (r\<lparr>pairs := pre\<rparr>) = Some (r\<lparr>pairs := out_pre\<rparr>)
    \<and> detectModifications D this (r\<lparr>pairs := post\<rparr>) = Some (r\<lparr>pairs := out_post\<rparr>)
    \<and> (rs \<noteq> [] \<and> (\<forall>x \<in> set rs. type x = Added) \<and> (post = [] \<or> \<not> right_only (hd post)) \<longrightarrow>
          detectModifications D this
            (r\<lparr>pairs := pre @ map removed_pair ls @ map added_pair rs @ post\<rparr>) =
          Some (r\<lparr>pairs := out_pre
                  @ map2 (modified_pair D (enableCharDiff this))
                      (take (min (length ls) (length rs)) ls)
                      (take (min (length ls) (length rs)) rs)
                  @ map removed_pair (drop (min (length ls) (length rs)) ls)
                  @ map added_pair (drop (min (length ls) (length rs)) rs)
                  @ out_post\<rparr>)
          \<and> length (map2 (modified_pair D (enableCharDiff this))
                      (take (min (length ls) (length rs)) ls)
                      (take (min (length ls) (length rs)) rs)) = min (length ls) (length rs))
    \<and> (post = [] \<or> (\<not> left_only (hd post) \<and> \<not> right_only (hd post)) \<longrightarrow>
          detectModifications D this (r\<lparr>pairs := pre @ map removed_pair ls @ post\<rparr>) =
          Some (r\<lparr>pairs := out_pre @ map removed_pair ls @ out_post\<rparr>))"
proof -
  let ?en = "enableCharDiff this"
  let ?f = "filter (\<lambda>p. \<not> merged p)"
  let ?R = "map removed_pair ls"
  have hdls: "type (hd ls) = Removed" using assms(1,2) by simp
  have X: "?R @ Y = [] \<or> \<not> right_only (hd (?R @ Y))" for Y
    using assms(1) by (cases ls) auto
  have pre: "mark D ?en (pre @ ?R @ Y) = mark D ?en pre @ mark D ?en (?R @ Y)" for Y
    using mark_append [OF assms(3) X] .
  have a: "detectModifications D this
            (r\<lparr>pairs := pre @ ?R @ map added_pair rs @ post\<rparr>) =
          Some (r\<lparr>pairs := ?f (mark D ?en pre)
                  @ map2 (modified_pair D ?en)
                      (take (min (length ls) (length rs)) ls)
                      (take (min (length ls) (length rs)) rs)
                  @ map removed_pair (drop (min (length ls) (length rs)) ls)
                  @ map added_pair (drop (min (length ls) (length rs)) rs)
                  @ ?f (mark D ?en post)\<rparr>)"
    if "rs \<noteq> []" "\<forall>x \<in> set rs. type x = Added" "post = [] \<or> \<not> right_only (hd post)"
  proof -
    have "type (hd rs) = Added" using that(1,2) by simp
    from mark_removed_added_run [OF assms(1) hdls that(1) this that(3), of D ?en]
    show ?thesis
      by (simp add: detectModifications_mark pre)
  qed
  have b: "detectModifications D this (r\<lparr>pairs := pre @ ?R @ post\<rparr>) =
          Some (r\<lparr>pairs := ?f (mark D ?en pre) @ ?R @ ?f (mark D ?en post)\<rparr>)"
    if "post = [] \<or> (\<not> left_only (hd post) \<and> \<not> right_only (hd post))"
  proof -
    have "post = [] \<or> (\<not> left_only (hd post) \<and> \<not> added_start (hd post))"
      using that by (auto dest: added_start_right_only)
    from mark_removed_run [OF assms(1) hdls this, of D ?en]
    have "?f (mark D ?en (?R @ post)) = ?R @ ?f (mark D ?en post)"
      by (auto simp: filter_id_conv)
    then show ?thesis
      by (simp add: detectModifications_mark pre)
  qed
  have c: "length (map2 (modified_pair D ?en)
                      (take (min (length ls) (length rs)) ls)
                      (take (min (length ls) (length rs)) rs)) = min (length ls) (length rs)"
    by simp
  show ?thesis
    apply (rule exI [of _ "?f (mark D ?en pre)"])
    apply (rule exI [of _ "?f (mark D ?en post)"])
    using a b c by (simp add: detectModifications_mark)
qed

theorem detectModifications_runs_witness:
  "[mk_line 2 ''b'' Removed, mk_line 3 ''c'' Removed] \<noteq> []
   \<and> type (mk_line 2 ''b'' Removed) = Removed \<and> type (mk_line 3 ''c'' Removed) = Removed
   \<and> \<not> left_only (last [common_pair (mk_line 1 ''a'' Unchanged) (mk_line 1 ''a'' Unchanged)])
   \<and> type (mk_line 2 ''x'' Added) = Added
   \<and> \<not> right_only (hd [common_pair (mk_line 4 ''d'' Unchanged) (mk_line 3 ''d'' Unchanged)])
   \<and> detectModifications no_diff constructor
        \<lparr>res_left = [], res_right = [],
         pairs = [common_pair (mk_line 1 ''a'' Unchanged) (mk_line 1 ''a'' Unchanged),
                  removed_pair (mk_line 2 ''b'' Removed), removed_pair (mk_line 3 ''c'' Removed),
                  added_pair (mk_line 2 ''x'' Added),
                  common_pair (mk_line 4 ''d'' Unchanged) (mk_line 3 ''d'' Unchanged)]\<rparr>
      = Some \<lparr>res_left = [], res_right = [],
         pairs = [common_pair (mk_line 1 ''a'' Unchanged) (mk_line 1 ''a'' Unchanged),
                  common_pair (mk_line 2 ''b'' Modified) (mk_line 2 ''x'' Modified),
                  removed_pair (mk_line 3 ''c'' Removed),
                  common_pair (mk_line 4 ''d'' Unchanged) (mk_line 3 ''d'' Unchanged)]\<rparr>"
proof -
  let ?a = "common_pair (mk_line 1 ''a'' Unchanged) (mk_line 1 ''a'' Unchanged)"
  let ?d = "common_pair (mk_line 4 ''d'' Unchanged) (mk_line 3 ''d'' Unchanged)"
  let ?ls = "[mk_line 2 ''b'' Removed, mk_line 3 ''c'' Removed]"
  let ?rs = "[mk_line 2 ''x'' Added]"
  let ?r = "\<lparr>res_left = [], res_right = [], pairs = []\<rparr>"
  have h1: "?ls \<noteq> []" by simp
  have h2: "\<forall>l \<in> set ?ls. type l = Removed" by (simp add: mk_line_def)
  have h3: "[?a] = [] \<or> \<not> left_only (last [?a])"
    by (simp add: left_only_def common_pair_def)
  have h4: "?rs \<noteq> [] \<and> (\<forall>x \<in> set ?rs. type x = Added) \<and> ([?d] = [] \<or> \<not> right_only (hd [?d]))"
    by (simp add: right_only_def common_pair_def mk_line_def)
  from detectModifications_runs [OF h1 h2 h3, of no_diff constructor ?r "[?d]" ?rs]
  obtain out_pre out_post where
    p: "detectModifications no_diff constructor (?r\<lparr>pairs := [?a]\<rparr>) = Some (?r\<lparr>pairs := out_pre\<rparr>)" and
    q: "detectModifications no_diff constructor (?r\<lparr>pairs := [?d]\<rparr>) = Some (?r\<lparr>pairs := out_post\<rparr>)" and
    m: "detectModifications no_diff constructor
          (?r\<lparr>pairs := [?a] @ map removed_pair ?ls @ map added_pair ?rs @ [?d]\<rparr>) =
        Some (?r\<lparr>pairs := out_pre
                  @ map2 (modified_pair no_diff (enableCharDiff constructor))
                      (take (min (length ?ls) (length ?rs)) ?ls)
                      (take (min (length ?ls) (length ?rs)) ?rs)
                  @ map removed_pair (drop (min (length ?ls) (length ?rs)) ?ls)
                  @ map added_pair (drop (min (length ?ls) (length ?rs)) ?rs)
                  @ out_post\<rparr>)"
    using h4 by blast
  have "detectModifications no_diff constructor (?r\<lparr>pairs := [?a]\<rparr>) = Some (?r\<lparr>pairs := [?a]\<rparr>)"
    by code_simp
  with p have op: "out_pre = [?a]" by simp
  have "detectModifications no_diff constructor (?r\<lparr>pairs := [?d]\<rparr>) = Some (?r\<lparr>pairs := [?d]\<rparr>)"
    by code_simp
  with q have oq: "out_post = [?d]" by simp
  have md: "modified_pair no_diff (enableCharDiff constructor) (mk_line 2 ''b'' Removed) (mk_line 2 ''x'' Added)
          = common_pair (mk_line 2 ''b'' Modified) (mk_line 2 ''x'' Modified)"
    by (simp add: modified_pair_def mod_left_def mod_right_def constructor_def common_pair_def mk_line_def)
  from m op oq md h2 h3 h4 show ?thesis by simp
qed

subsection \<open>C3: reconstruction of the two line sequences\<close>

text \<open>
  C3.  The claim: the left sides of the pairs returned by \<open>compare\<close>, in order, are the
  lines of the left text, and likewise on the right.  \<open>compare\<close> asks the library for a
  diff with \<open>newlineIsToken: true\<close>, so a change object can begin with a line feed, and
  \<open>processDiff\<close> only pops an empty piece at the end of a change object.  For the texts
  \<open>a LF b LF c\<close> and \<open>a LF x LF c\<close> the change object behind the change is \<open>LF c\<close>;
  it yields an empty line and the line \<open>c\<close>, and each side of the result has the four
  lines \<open>a\<close>, \<open>b\<close> resp. \<open>x\<close>, the empty line, \<open>c\<close>, while each text has three lines.
\<close>

theorem compare_abc_axc_projection:
  "map_option (\<lambda>res. map content (project_left (pairs res)))
     (Option.bind (compare (fixed_diff abc_axc_diff) constructor abc axc) getResult)
     = Some [''a'', ''b'', [], ''c'']
   \<and> splitLines (Some abc) = [''a'', ''b'', ''c'']
   \<and> map_option (\<lambda>res. map content (project_right (pairs res)))
     (Option.bind (compare (fixed_diff abc_axc_diff) constructor abc axc) getResult)
     = Some [''a'', ''x'', [], ''c'']
   \<and> splitLines (Some axc) = [''a'', ''x'', ''c'']
   \<and> concat (map part_value (filter (\<lambda>p. \<not> part_added p) abc_axc_diff)) = abc
   \<and> concat (map part_value (filter (\<lambda>p. \<not> part_removed p) abc_axc_diff)) = axc"
  by code_simp

subsection \<open>C4: the shape of every pair\<close>

text \<open>
  C4.  \<open>compare\<close> returns, and every pair of its result has at least one side present;
  when both sides are present and neither is \<open>Modified\<close>, both are \<open>Unchanged\<close> with the
  same content; when both are present and one is \<open>Modified\<close>, so is the other.
\<close>

theorem compare_pair_invariant:
  "\<exists>e res. compare D this leftText rightText = Some e \<and> getResult e = Some res \<and>
     (\<forall>p \<in> set (pairs res).
        (left p \<noteq> None \<or> right p \<noteq> None) \<and>
        (\<forall>l r. left p = Some l \<and> right p = Some r \<longrightarrow>
           (type l \<noteq> Modified \<and> type r \<noteq> Modified \<longrightarrow>
              type l = Unchanged \<and> type r = Unchanged \<and> content l = content r) \<and>
           (type l = Modified \<or> type r = Modified \<longrightarrow>
              type l = Modified \<and> type r = Modified)))"
proof -
  from compare_pairs [of D this leftText rightText] obtain e res where
    c: "compare D this leftText rightText = Some e" "getResult e = Some res" and
    p: "pairs res = detected D (char_diff_enabled this leftText rightText)
                      (pairs (pair_lines (diffLines D leftText rightText)))"
    by blast
  have "list_all (final_pair (char_diff_enabled this leftText rightText)) (pairs res)"
    unfolding p by (rule final_pairs_compare)
  then have "\<forall>p \<in> set (pairs res).
        (left p \<noteq> None \<or> right p \<noteq> None) \<and>
        (\<forall>l r. left p = Some l \<and> right p = Some r \<longrightarrow>
           (type l \<noteq> Modified \<and> type r \<noteq> Modified \<longrightarrow>
              type l = Unchanged \<and> type r = Unchanged \<and> content l = content r) \<and>
           (type l = Modified \<or> type r = Modified \<longrightarrow>
              type l = Modified \<and> type r = Modified))"
    by (auto simp: list_all_iff final_pair_def split: option.splits)
  with c show ?thesis by blast
qed

theorem compare_pair_invariant_witness:
  "\<exists>e res. compare (fixed_diff abc_axc_diff) constructor abc axc = Some e
     \<and> getResult e = Some res
     \<and> pairs res = abc_axc_pairs
     \<and> (\<exists>l r. left (abc_axc_pairs ! 1) = Some l \<and> right (abc_axc_pairs ! 1) = Some r
          \<and> type l = Modified \<and> type r = Modified)"
proof -
  from compare_pair_invariant [of "fixed_diff abc_axc_diff" constructor abc axc]
  obtain e res where
    c: "compare (fixed_diff abc_axc_diff) constructor abc axc = Some e" "getResult e = Some res" and
    inv: "\<forall>p \<in> set (pairs res).
        (left p \<noteq> None \<or> right p \<noteq> None) \<and>
        (\<forall>l r. left p = Some l \<and> right p = Some r \<longrightarrow>
           (type l \<noteq> Modified \<and> type r \<noteq> Modified \<longrightarrow>
              type l = Unchanged \<and> type r = Unchanged \<and> content l = content r) \<and>
           (type l = Modified \<or> type r = Modified \<longrightarrow>
              type l = Modified \<and> type r = Modified))"
    by blast
  have ps: "pairs res = abc_axc_pairs" using c by (rule abc_axc_result_pairs)
  obtain l r where lr: "left (abc_axc_pairs ! 1) = Some l" "right (abc_axc_pairs ! 1) = Some r"
    "type l = Modified"
    by (simp add: abc_axc_pairs_def)
  have "abc_axc_pairs ! 1 \<in> set (pairs res)"
    unfolding ps by (simp add: abc_axc_pairs_def)
  with inv lr have "type r = Modified" by blast
  with c ps lr show ?thesis by blast
qed

subsection \<open>C5: the blocks\<close>

text \<open>
  C5.  After \<open>compare\<close>, every block returned by \<open>getDiffBlocks\<close> has indices in range,
  holds exactly the pairs of the result from \<open>startIndex\<close> to \<open>endIndex\<close>, all of which
  are diff pairs, and is maximal: the pair before \<open>startIndex\<close> and the pair behind
  \<open>endIndex\<close>, where they exist, have both sides present and \<open>Unchanged\<close>.  The blocks
  come in ascending order with at least one pair between two of them, and every diff pair
  of the result lies in a block.
\<close>

theorem compare_diff_blocks:
  "\<exists>e res. compare D this leftText rightText = Some e \<and> getResult e = Some res
     \<and> (\<forall>b \<in> set (getDiffBlocks e).
           startIndex b \<le> endIndex b \<and> endIndex b < length (pairs res)
           \<and> block_pairs b = take (endIndex b + 1 - startIndex b) (drop (startIndex b) (pairs res))
           \<and> (\<forall>p \<in> set (block_pairs b). diff_pair p)
           \<and> (startIndex b = 0 \<or> fully_unchanged (pairs res ! (startIndex b - 1)))
           \<and> (endIndex b + 1 = length (pairs res) \<or> fully_unchanged (pairs res ! (endIndex b + 1))))
     \<and> sorted_wrt (\<lambda>b c. endIndex b + 1 < startIndex c) (getDiffBlocks e)
     \<and> (\<forall>k < length (pairs res). diff_pair (pairs res ! k) \<longrightarrow>
           (\<exists>b \<in> set (getDiffBlocks e). startIndex b \<le> k \<and> k \<le> endIndex b))"
proof -
  let ?en = "char_diff_enabled this leftText rightText"
  from compare_pairs [of D this leftText rightText] obtain e res where
    c: "compare D this leftText rightText = Some e" "getResult e = Some res" and
    b: "getDiffBlocks e = groupDiffBlocks res" and
    p: "pairs res = detected D ?en (pairs (pair_lines (diffLines D leftText rightText)))"
    by blast
  let ?ps = "pairs res"
  have "list_all (final_pair ?en) ?ps"
    unfolding p by (rule final_pairs_compare)
  then have fin: "\<And>q. q \<in> set ?ps \<Longrightarrow> final_pair ?en q"
    by (simp add: list_all_iff)
  have finn: "\<And>k. k < length ?ps \<Longrightarrow> final_pair ?en (?ps ! k)"
    using fin by simp
  from groupDiffBlocks_runs [of res] have
    runs: "\<And>b. b \<in> set (groupDiffBlocks res) \<Longrightarrow> block_run ?ps b
       \<and> (endIndex b + 1 = length ?ps \<or> \<not> isDiff (?ps ! (endIndex b + 1)))" and
    so: "sorted_wrt block_before (groupDiffBlocks res)" and
    co: "\<And>k. k < length ?ps \<Longrightarrow> isDiff (?ps ! k) \<Longrightarrow>
         (\<exists>b \<in> set (groupDiffBlocks res). startIndex b \<le> k \<and> k \<le> endIndex b)"
    by blast+
  have one: "startIndex b \<le> endIndex b \<and> endIndex b < length ?ps
           \<and> block_pairs b = take (endIndex b + 1 - startIndex b) (drop (startIndex b) ?ps)
           \<and> (\<forall>p \<in> set (block_pairs b). diff_pair p)
           \<and> (startIndex b = 0 \<or> fully_unchanged (?ps ! (startIndex b - 1)))
           \<and> (endIndex b + 1 = length ?ps \<or> fully_unchanged (?ps ! (endIndex b + 1)))"
    if "b \<in> set (groupDiffBlocks res)" for b
  proof -
    from runs [OF that] have
      r: "block_run ?ps b" and
      m: "endIndex b + 1 = length ?ps \<or> \<not> isDiff (?ps ! (endIndex b + 1))"
      by simp_all
    from r have
      se: "startIndex b \<le> endIndex b" "endIndex b < length ?ps" and
      bp: "block_pairs b = take (endIndex b + 1 - startIndex b) (drop (startIndex b) ?ps)" and
      lm: "startIndex b = 0 \<or> \<not> isDiff (?ps ! (startIndex b - 1))"
      by (simp_all add: block_run_def)
    have d: "\<forall>p \<in> set (block_pairs b). diff_pair p"
      using block_pairs_diff [OF r] fin final_pair_isDiff(1) by blast
    have l: "startIndex b = 0 \<or> fully_unchanged (?ps ! (startIndex b - 1))"
    proof (cases "startIndex b = 0")
      case False
      then have "startIndex b - 1 < length ?ps" using se by simp
      from finn [OF this] lm False show ?thesis by (auto dest: final_pair_isDiff(2))
    qed simp
    have u: "endIndex b + 1 = length ?ps \<or> fully_unchanged (?ps ! (endIndex b + 1))"
    proof (cases "endIndex b + 1 = length ?ps")
      case False
      then have "endIndex b + 1 < length ?ps" using se by simp
      from finn [OF this] m False show ?thesis by (auto dest: final_pair_isDiff(2))
    qed simp
    from se bp d l u show ?thesis by simp
  qed
  have so': "sorted_wrt (\<lambda>b c. endIndex b + 1 < startIndex c) (groupDiffBlocks res)"
  proof -
    have "block_before = (\<lambda>b c. endIndex b + 1 < startIndex c)"
      by (intro ext) (simp add: block_before_def)
    with so show ?thesis by simp
  qed
  have co': "\<forall>k < length ?ps. diff_pair (?ps ! k) \<longrightarrow>
           (\<exists>b \<in> set (groupDiffBlocks res). startIndex b \<le> k \<and> k \<le> endIndex b)"
    using co finn final_pair_isDiff(1) by blast
  have all: "\<forall>b \<in> set (getDiffBlocks e).
           startIndex b \<le> endIndex b \<and> endIndex b < length ?ps
           \<and> block_pairs b = take (endIndex b + 1 - startIndex b) (drop (startIndex b) ?ps)
           \<and> (\<forall>p \<in> set (block_pairs b). diff_pair p)
           \<and> (startIndex b = 0 \<or> fully_unchanged (?ps ! (startIndex b - 1)))
           \<and> (endIndex b + 1 = length ?ps \<or> fully_unchanged (?ps ! (endIndex b + 1)))"
    unfolding b using one by blast
  show ?thesis
    apply (rule exI [of _ e])
    apply (rule exI [of _ res])
    using c all so' co' unfolding b by (intro conjI)
qed

theorem compare_diff_blocks_witness:
  "\<exists>e res. compare (fixed_diff abc_axc_diff) constructor abc axc = Some e
     \<and> getResult e = Some res \<and> pairs res = abc_axc_pairs
     \<and> getDiffBlocks e = [\<lparr>startIndex = 1, endIndex = 1, block_pairs = [abc_axc_pairs ! 1]\<rparr>]
     \<and> diff_pair (abc_axc_pairs ! 1)
     \<and> fully_unchanged (abc_axc_pairs ! 0)
     \<and> fully_unchanged (abc_axc_pairs ! 2)"
proof -
  let ?b = "\<lparr>startIndex = 1, endIndex = 1, block_pairs = [abc_axc_pairs ! 1]\<rparr>"
  from compare_diff_blocks [of "fixed_diff abc_axc_diff" constructor abc axc]
  obtain e res where
    c: "compare (fixed_diff abc_axc_diff) constructor abc axc = Some e" "getResult e = Some res" and
    bl: "\<forall>b \<in> set (getDiffBlocks e).
           startIndex b \<le> endIndex b \<and> endIndex b < length (pairs res)
           \<and> block_pairs b = take (endIndex b + 1 - startIndex b) (drop (startIndex b) (pairs res))
           \<and> (\<forall>p \<in> set (block_pairs b). diff_pair p)
           \<and> (startIndex b = 0 \<or> fully_unchanged (pairs res ! (startIndex b - 1)))
           \<and> (endIndex b + 1 = length (pairs res) \<or> fully_unchanged (pairs res ! (endIndex b + 1)))"
    by blast
  have ps: "pairs res = abc_axc_pairs" using c by (rule abc_axc_result_pairs)
  have "map_option getDiffBlocks (compare (fixed_diff abc_axc_diff) constructor abc axc) =
          Some [\<lparr>startIndex = 1, endIndex = 1, block_pairs = [abc_axc_pairs ! 1]\<rparr>]"
    by code_simp
  with c have gb: "getDiffBlocks e = [?b]" by simp
  have len: "length abc_axc_pairs = 4" by (simp add: abc_axc_pairs_def)
  have "?b \<in> set (getDiffBlocks e)" unfolding gb by simp
  with bl have
    d: "\<forall>p \<in> set (block_pairs ?b). diff_pair p" and
    l: "startIndex ?b = 0 \<or> fully_unchanged (pairs res ! (startIndex ?b - 1))" and
    u: "endIndex ?b + 1 = length (pairs res) \<or> fully_unchanged (pairs res ! (endIndex ?b + 1))"
    by blast+
  from d have "diff_pair (abc_axc_pairs ! 1)" by simp
  moreover from l ps have "fully_unchanged (abc_axc_pairs ! 0)" by simp
  moreover from u ps len have "fully_unchanged (abc_axc_pairs ! 2)"
    by (simp add: numeral_2_eq_2)
  ultimately have "diff_pair (abc_axc_pairs ! 1)" "fully_unchanged (abc_axc_pairs ! 0)"
    "fully_unchanged (abc_axc_pairs ! 2)"
    by simp_all
  with c ps gb show ?thesis by blast
qed

subsection \<open>C6: the statistics\<close>

text \<open>
  C6.  The claim: after \<open>compare\<close>, \<open>getStats\<close> returns the counts of added, removed,
  modified and unchanged pairs, the number of blocks, and as \<open>leftLines\<close> and
  \<open>rightLines\<close> the numbers of lines of the two texts.  The four counts and the number of
  blocks are as claimed (\<open>getStats_after_compare\<close>).  The line counts are the lengths of
  what \<open>splitLines\<close> returns, which has one element too many for a text that ends in a
  line terminator: comparing \<open>a LF b LF\<close> with itself pairs two lines on each side, all
  unchanged, and reports three lines for each text.
\<close>

theorem compare_getStats_line_count:
  "Option.bind (compare (fixed_diff [common_part ab_terminated]) constructor
                  ab_terminated ab_terminated) getStats
     = Some \<lparr>s_added = 0, s_removed = 0, s_modified = 0, s_unchanged = 2, s_totalDiffs = 0,
             s_leftLines = 3, s_rightLines = 3\<rparr>
   \<and> map_option (\<lambda>res. map content (project_left (pairs res)))
       (Option.bind (compare (fixed_diff [common_part ab_terminated]) constructor
                       ab_terminated ab_terminated) getResult)
     = Some [''a'', ''b'']
   \<and> map_option (\<lambda>res. map content (project_right (pairs res)))
       (Option.bind (compare (fixed_diff [common_part ab_terminated]) constructor
                       ab_terminated ab_terminated) getResult)
     = Some [''a'', ''b'']
   \<and> part_lines ab_terminated = [''a'', ''b'']
   \<and> concat (map part_value [common_part ab_terminated]) = ab_terminated"
  by code_simp

subsection \<open>C7: the threshold of character diffing\<close>

text \<open>
  C7.  The claim: character diffing is performed exactly when the two texts together
  have fewer than 5000 lines.  \<open>compare\<close> takes the number of lines from \<open>splitLines\<close>,
  which counts one line too many for a text that ends in a line terminator.  The texts
  \<open>b\<close> and \<open>x\<close>, each followed by 2499 line feeds, have 2499 lines each, 4998 together;
  \<open>splitLines\<close> returns 2500 elements for each, \<open>5000 < 5000\<close> fails, and the modified
  pair of \<open>b\<close> and \<open>x\<close> is left without character spans on both sides.  On the small
  texts \<open>a LF b LF c\<close> and \<open>a LF x LF c\<close> the same pair carries the spans that
  \<open>computeCharDiff\<close> makes of the library's character diff.
\<close>

theorem compare_char_diff_miscount:
  "length (part_lines b_lines) + length (part_lines x_lines) = 4998
   \<and> length (splitLines (Some b_lines)) + length (splitLines (Some x_lines)) = 5000
   \<and> maxLinesForCharDiff constructor = 5000
   \<and> concat (map part_value (filter (\<lambda>p. \<not> part_added p) b_x_diff)) = b_lines
   \<and> concat (map part_value (filter (\<lambda>p. \<not> part_removed p) b_x_diff)) = x_lines
   \<and> (\<exists>e res. compare (fixed_diff b_x_diff) constructor b_lines x_lines = Some e
         \<and> getResult e = Some res
         \<and> pairs res ! 0 =
             \<lparr>left = Some \<lparr>lineNum = 1, content = ''b'', type = Modified, charDiff = None\<rparr>,
              right = Some \<lparr>lineNum = 1, content = ''x'', type = Modified, charDiff = None\<rparr>,
              merged = False\<rparr>)
   \<and> length (splitLines (Some abc)) + length (splitLines (Some axc)) = 6
   \<and> map_option (\<lambda>res. pairs res ! 1)
       (Option.bind (compare (fixed_diff abc_axc_diff) constructor abc axc) getResult)
     = Some \<lparr>left = Some \<lparr>lineNum = 2, content = ''b'', type = Modified,
                            charDiff = Some [\<lparr>span_text = ''b'', span_type = Removed\<rparr>]\<rparr>,
              right = Some \<lparr>lineNum = 2, content = ''x'', type = Modified,
                             charDiff = Some [\<lparr>span_text = ''x'', span_type = Added\<rparr>]\<rparr>,
              merged = False\<rparr>"
proof -
  let ?D = "fixed_diff b_x_diff"
  have ne: "CHR ''b'' \<noteq> LF" "CHR ''b'' \<noteq> CR" "CHR ''x'' \<noteq> LF" "CHR ''x'' \<noteq> CR"
    by (simp_all add: LF_def CR_def)
  have real: "length (part_lines b_lines) + length (part_lines x_lines) = 4998"
    unfolding b_lines_def x_lines_def by (simp add: part_lines_char_replicate ne)
  have counted: "length (splitLines (Some b_lines)) + length (splitLines (Some x_lines)) = 5000"
    unfolding b_lines_def x_lines_def by (simp add: splitLines_char_replicate ne)
  have m: "maxLinesForCharDiff constructor = 5000" by (simp add: constructor_def)
  have en: "char_diff_enabled constructor b_lines x_lines = False"
    using counted m by (simp add: char_diff_enabled_def)
  have cover: "concat (map part_value (filter (\<lambda>p. \<not> part_added p) b_x_diff)) = b_lines"
              "concat (map part_value (filter (\<lambda>p. \<not> part_removed p) b_x_diff)) = x_lines"
    by (simp_all add: b_x_diff_def b_lines_def x_lines_def removed_part_def added_part_def
        common_part_def)
  have dl: "diffLines ?D b_lines x_lines = b_x_diff" by (simp add: fixed_diff_def)
  from compare_pairs [of ?D constructor b_lines x_lines] obtain e res where
    c: "compare ?D constructor b_lines x_lines = Some e" "getResult e = Some res" and
    p: "pairs res = detected ?D False (pairs (pair_lines b_x_diff))"
    unfolding en dl by blast
  from b_x_detected [of ?D False] p obtain qs where
    "pairs res = modified_pair ?D False (mk_line 1 ''b'' Removed) (mk_line 1 ''x'' Added) # qs"
    by auto
  then have first: "pairs res ! 0 =
             \<lparr>left = Some \<lparr>lineNum = 1, content = ''b'', type = Modified, charDiff = None\<rparr>,
              right = Some \<lparr>lineNum = 1, content = ''x'', type = Modified, charDiff = None\<rparr>,
              merged = False\<rparr>"
    by (simp add: modified_pair_def mod_left_def mod_right_def mk_line_def)
  have big: "\<exists>e res. compare ?D constructor b_lines x_lines = Some e
         \<and> getResult e = Some res
         \<and> pairs res ! 0 =
             \<lparr>left = Some \<lparr>lineNum = 1, content = ''b'', type = Modified, charDiff = None\<rparr>,
              right = Some \<lparr>lineNum = 1, content = ''x'', type = Modified, charDiff = None\<rparr>,
              merged = False\<rparr>"
    using c first by blast
  have small: "length (splitLines (Some abc)) + length (splitLines (Some axc)) = 6"
    by (simp add: splitLines_def split_newline_def abc_def axc_def LF_def CR_def)
  have spans: "map_option (\<lambda>res. pairs res ! 1)
       (Option.bind (compare (fixed_diff abc_axc_diff) constructor abc axc) getResult)
     = Some \<lparr>left = Some \<lparr>lineNum = 2, content = ''b'', type = Modified,
                            charDiff = Some [\<lparr>span_text = ''b'', span_type = Removed\<rparr>]\<rparr>,
              right = Some \<lparr>lineNum = 2, content = ''x'', type = Modified,
                             charDiff = Some [\<lparr>span_text = ''x'', span_type = Added\<rparr>]\<rparr>,
              merged = False\<rparr>"
    by code_simp
  from real counted m cover big small spans show ?thesis by (intro conjI)
qed

subsection \<open>C8: line numbers\<close>

text \<open>
  C8.  \<open>compare\<close> returns, and on each side the line numbers of the lines in the order of
  their creation (the arrays \<open>left\<close> and \<open>right\<close> of the result) are 1, 2, ..., N, where
  N is the number of lines created on that side.  The lines found on the pairs of the final
  result, side by side in order, carry the same numbers: the modification pass renumbers
  nothing and loses no line.
\<close>

theorem compare_line_numbers:
  "\<exists>e res. compare D this leftText rightText = Some e \<and> getResult e = Some res
     \<and> map lineNum (res_left res) = [1 ..< Suc (length (res_left res))]
     \<and> map lineNum (res_right res) = [1 ..< Suc (length (res_right res))]
     \<and> map lineNum (project_left (pairs res)) = [1 ..< Suc (length (res_left res))]
     \<and> map lineNum (project_right (pairs res)) = [1 ..< Suc (length (res_right res))]"
proof -
  from compare_pairs [of D this leftText rightText] obtain e res where
    c: "compare D this leftText rightText = Some e" "getResult e = Some res" and
    l: "res_left res = res_left (pair_lines (diffLines D leftText rightText))" and
    r: "res_right res = res_right (pair_lines (diffLines D leftText rightText))" and
    p: "pairs res = detected D (char_diff_enabled this leftText rightText)
                      (pairs (pair_lines (diffLines D leftText rightText)))"
    by blast
  have "map lineNum (res_left res) = [1 ..< Suc (length (res_left res))]"
       "map lineNum (res_right res) = [1 ..< Suc (length (res_right res))]"
    unfolding l r by (rule pair_lines_facts)+
  moreover have "map lineNum (project_left (pairs res)) = map lineNum (res_left res)"
                "map lineNum (project_right (pairs res)) = map lineNum (res_right res)"
    unfolding l r p by (rule detected_lineNum)+
  ultimately show ?thesis using c by auto
qed

theorem compare_line_numbers_witness:
  "\<exists>e res. compare (fixed_diff abc_axc_diff) constructor abc axc = Some e
     \<and> getResult e = Some res
     \<and> pairs res = abc_axc_pairs
     \<and> map lineNum (project_left abc_axc_pairs) = [1, 2, 3, 4]
     \<and> map lineNum (project_right abc_axc_pairs) = [1, 2, 3, 4]
     \<and> map lineNum (res_left res) = [1, 2, 3, 4]
     \<and> map lineNum (res_right res) = [1, 2, 3, 4]"
proof -
  from compare_line_numbers [of "fixed_diff abc_axc_diff" constructor abc axc]
  obtain e res where
    c: "compare (fixed_diff abc_axc_diff) constructor abc axc = Some e" "getResult e = Some res" and
    n: "map lineNum (res_left res) = [1 ..< Suc (length (res_left res))]"
       "map lineNum (res_right res) = [1 ..< Suc (length (res_right res))]"
       "map lineNum (project_left (pairs res)) = [1 ..< Suc (length (res_left res))]"
       "map lineNum (project_right (pairs res)) = [1 ..< Suc (length (res_right res))]"
    by blast
  have ps: "pairs res = abc_axc_pairs" using c by (rule abc_axc_result_pairs)
  have pl: "map lineNum (project_left abc_axc_pairs) = [1, 2, 3, 4]"
           "map lineNum (project_right abc_axc_pairs) = [1, 2, 3, 4]"
    by (simp_all add: abc_axc_pairs_def common_pair_def mk_line_def)
  from n(1,3) ps pl have "map lineNum (res_left res) = [1, 2, 3, 4]" by simp
  moreover from n(2,4) ps pl have "map lineNum (res_right res) = [1, 2, 3, 4]" by simp
  ultimately show ?thesis
    using c ps pl by (intro exI [of _ e] exI [of _ res]) simp
qed

subsection \<open>C9: comparing a text with itself\<close>

text \<open>
  C9.  Let the library answer the comparison of \<open>X\<close> with \<open>X\<close> as a line diff of
  identical inputs does: no change object is added or removed, and the values of the
  change objects make up \<open>X\<close>.  Then \<open>compare\<close> returns, every pair of its result has both
  sides present, of kind \<open>Unchanged\<close> and of the same content, and there is no block.  For
  the empty text there is no pair.
\<close>

theorem compare_identical:
  assumes "\<forall>p \<in> set (diffLines D X X). \<not> part_added p \<and> \<not> part_removed p"
    and "concat (map part_value (diffLines D X X)) = X"
  shows "\<exists>e res. compare D this X X = Some e \<and> getResult e = Some res
     \<and> (\<forall>p \<in> set (pairs res).
           \<exists>l r. left p = Some l \<and> right p = Some r
             \<and> type l = Unchanged \<and> type r = Unchanged \<and> content l = content r)
     \<and> getDiffBlocks e = []
     \<and> (X = [] \<longrightarrow> pairs res = [])"
proof -
  let ?en = "char_diff_enabled this X X"
  let ?ps = "pairs (pair_lines (diffLines D X X))"
  from compare_pairs [of D this X X] obtain e res where
    c: "compare D this X X = Some e" "getResult e = Some res" and
    b: "getDiffBlocks e = groupDiffBlocks res" and
    p: "pairs res = detected D ?en ?ps"
    by blast
  have fresh: "list_all fresh_pair ?ps" by (rule pair_lines_facts)
  have two: "list_all two_sided ?ps" using assms(1) by (rule two_sided_pair_lines)
  have plain: "\<forall>p \<in> set ?ps. \<not> removed_start p \<and> \<not> isDiff p \<and> \<not> merged p"
    using fresh two two_sided_plain unfolding list_all_iff by blast
  then have "mark D ?en ?ps = ?ps" by (simp add: mark_no_removed)
  with plain have same: "pairs res = ?ps"
    unfolding p detected_def by (auto simp: filter_id_conv)
  have shape: "\<forall>p \<in> set (pairs res).
           \<exists>l r. left p = Some l \<and> right p = Some r
             \<and> type l = Unchanged \<and> type r = Unchanged \<and> content l = content r"
    unfolding same using fresh two two_sided_fresh unfolding list_all_iff by blast
  have blocks: "getDiffBlocks e = []"
    unfolding b using plain same by (intro groupDiffBlocks_no_diff) simp
  have empty: "pairs res = []" if "X = []"
  proof -
    have "\<forall>p \<in> set (diffLines D X X). part_value p = []"
      using assms(2) that by auto
    then show ?thesis unfolding same by (rule pair_lines_no_lines)
  qed
  from c shape blocks empty show ?thesis by blast
qed

theorem compare_identical_witness:
  "\<not> part_added (common_part abc) \<and> \<not> part_removed (common_part abc)
   \<and> concat (map part_value (diffLines (fixed_diff [common_part abc]) abc abc)) = abc
   \<and> (\<exists>e res. compare (fixed_diff [common_part abc]) constructor abc abc = Some e
         \<and> getResult e = Some res
         \<and> pairs res = [common_pair (mk_line 1 ''a'' Unchanged) (mk_line 1 ''a'' Unchanged),
                         common_pair (mk_line 2 ''b'' Unchanged) (mk_line 2 ''b'' Unchanged),
                         common_pair (mk_line 3 ''c'' Unchanged) (mk_line 3 ''c'' Unchanged)]
         \<and> getDiffBlocks e = [])
   \<and> concat (map part_value (diffLines (fixed_diff [common_part []]) [] [])) = []
   \<and> (\<exists>e res. compare (fixed_diff [common_part []]) constructor [] [] = Some e
         \<and> getResult e = Some res \<and> pairs res = [] \<and> getDiffBlocks e = [])"
proof -
  let ?D = "fixed_diff [common_part abc]"
  let ?E = "fixed_diff [common_part []]"
  have h1: "\<forall>p \<in> set (diffLines ?D abc abc). \<not> part_added p \<and> \<not> part_removed p"
    by (simp add: fixed_diff_def common_part_def)
  have h2: "concat (map part_value (diffLines ?D abc abc)) = abc"
    by (simp add: fixed_diff_def common_part_def)
  have h3: "\<forall>p \<in> set (diffLines ?E [] []). \<not> part_added p \<and> \<not> part_removed p"
    by (simp add: fixed_diff_def common_part_def)
  have h4: "concat (map part_value (diffLines ?E [] [])) = []"
    by (simp add: fixed_diff_def common_part_def)
  from compare_identical [OF h1 h2, of constructor] obtain e res where
    c: "compare ?D constructor abc abc = Some e" "getResult e = Some res" "getDiffBlocks e = []"
    by blast
  have "map_option pairs (Option.bind (compare ?D constructor abc abc) getResult) =
          Some [common_pair (mk_line 1 ''a'' Unchanged) (mk_line 1 ''a'' Unchanged),
                common_pair (mk_line 2 ''b'' Unchanged) (mk_line 2 ''b'' Unchanged),
                common_pair (mk_line 3 ''c'' Unchanged) (mk_line 3 ''c'' Unchanged)]"
    by code_simp
  with c have ps: "pairs res = [common_pair (mk_line 1 ''a'' Unchanged) (mk_line 1 ''a'' Unchanged),
                common_pair (mk_line 2 ''b'' Unchanged) (mk_line 2 ''b'' Unchanged),
                common_pair (mk_line 3 ''c'' Unchanged) (mk_line 3 ''c'' Unchanged)]"
    by simp
  from compare_identical [OF h3 h4, of constructor] obtain e' res' where
    c': "compare ?E constructor [] [] = Some e'" "getResult e' = Some res'"
        "getDiffBlocks e' = []" "pairs res' = []"
    by blast
  have a: "\<not> part_added (common_part abc) \<and> \<not> part_removed (common_part abc)"
    by (simp add: common_part_def)
  from a h2 h4 c ps c' show ?thesis by blast
qed

subsection \<open>C10: the modification pass terminates\<close>

text \<open>
  C10.  Every round of the scanning loop of \<open>detectModifications\<close> that is entered
  (\<open>i < pairs.length\<close>) completes without throwing, keeps the length of the array and
  moves the index strictly forward, never beyond the end: past the whole left-only run
  when the pair at \<open>i\<close> starts a removed run, by exactly one otherwise.  Hence the
  loop started at index 0 is over after at most \<open>pairs.length\<close> rounds, and
  \<open>detectModifications\<close> returns on every pair sequence.
\<close>

theorem detectModifications_terminates:
  "(snd s < length (fst s) \<longrightarrow>
      (\<exists>s'. detect_step D en s = Some s'
         \<and> length (fst s') = length (fst s)
         \<and> snd s < snd s' \<and> snd s' \<le> length (fst s)
         \<and> (removed_start (fst s ! snd s) \<longrightarrow>
              snd s + length (takeWhile left_only (drop (snd s) (fst s))) \<le> snd s')
         \<and> (\<not> removed_start (fst s ! snd s) \<longrightarrow> snd s' = snd s + 1)))
   \<and> (\<exists>ps'. detect_fuel D en (length ps) (ps, 0) = Some ps'
         \<and> detect_loop D en (ps, 0) = Some ps')
   \<and> (\<exists>r'. detectModifications D this r = Some r')"
proof (intro conjI impI)
  assume a: "snd s < length (fst s)"
  from detect_step_total [OF a] obtain s' where st: "detect_step D en s = Some s'"
    by blast
  from detect_step_progress [OF a st] detect_step_advance [OF a st] st
  show "\<exists>s'. detect_step D en s = Some s'
         \<and> length (fst s') = length (fst s)
         \<and> snd s < snd s' \<and> snd s' \<le> length (fst s)
         \<and> (removed_start (fst s ! snd s) \<longrightarrow>
              snd s + length (takeWhile left_only (drop (snd s) (fst s))) \<le> snd s')
         \<and> (\<not> removed_start (fst s ! snd s) \<longrightarrow> snd s' = snd s + 1)"
    by blast
next
  have "detect_fuel D en (length ps) (ps, 0) = detect_loop D en (ps, 0)"
    by (rule detect_fuel_loop) simp
  moreover have "detect_loop D en (ps, 0) = Some (mark D en ps)"
    using detect_loop_mark [of "(ps, 0)" D en] by simp
  ultimately show "\<exists>ps'. detect_fuel D en (length ps) (ps, 0) = Some ps'
         \<and> detect_loop D en (ps, 0) = Some ps'"
    by simp
next
  show "\<exists>r'. detectModifications D this r = Some r'"
    by (simp add: detectModifications_mark)
qed

theorem detectModifications_terminates_witness:
  "snd ([removed_pair (mk_line 1 ''a'' Removed), removed_pair (mk_line 2 ''b'' Removed),
         added_pair (mk_line 1 ''x'' Added)], 0 :: nat)
     < length (fst ([removed_pair (mk_line 1 ''a'' Removed), removed_pair (mk_line 2 ''b'' Removed),
         added_pair (mk_line 1 ''x'' Added)], 0 :: nat))
   \<and> removed_start (removed_pair (mk_line 1 ''a'' Removed))
   \<and> (\<exists>s'. detect_step no_diff True
          ([removed_pair (mk_line 1 ''a'' Removed), removed_pair (mk_line 2 ''b'' Removed),
            added_pair (mk_line 1 ''x'' Added)], 0) = Some s'
        \<and> 2 \<le> snd s')"
proof -
  let ?s = "([removed_pair (mk_line 1 ''a'' Removed), removed_pair (mk_line 2 ''b'' Removed),
         added_pair (mk_line 1 ''x'' Added)], 0 :: nat)"
  have h: "snd ?s < length (fst ?s)" by simp
  have r: "removed_start (removed_pair (mk_line 1 ''a'' Removed))"
    by (simp add: removed_start_def removed_pair_def mk_line_def)
  have l: "left_only (removed_pair l)" "\<not> left_only (added_pair l)" for l
    by (simp_all add: left_only_def removed_pair_def added_pair_def)
  from detectModifications_terminates [of ?s no_diff True "[]" constructor "\<lparr>res_left = [], res_right = [], pairs = []\<rparr>"] h r l
  show ?thesis by auto
qed

end
